theory Spec2Isabelle
  imports Main
begin

section \<open>JavaScript numbers\<close>

text \<open>
  Every number of \<^verbatim>\<open>script.js\<close> is an IEEE 754 binary64 value. A finite value is kept
  as sign, significand and binary exponent: \<open>Finite s m e\<close> stands for
  \<open>(-1)\<^sup>s \<sqdot> m \<sqdot> 2\<^sup>e\<close>, with \<open>s = True\<close> for a negative sign. Every rounded result
  is the representation with an odd significand (\<open>Finite s 0 0\<close> for a zero), so that
  equal results are equal terms; the operations themselves read their arguments by
  value and accept any representation.
\<close>

datatype double = NaN | Infinity bool | Finite bool nat int

text \<open>
  \<open>bit_length n\<close> is the number of binary digits of \<open>n\<close>, and \<open>norm m e\<close> is the
  representation of \<open>m \<sqdot> 2\<^sup>e\<close> with an odd significand.
\<close>

fun bit_length :: "nat \<Rightarrow> nat" where
  "bit_length n = (if n = 0 then 0 else Suc (bit_length (n div 2)))"

declare bit_length.simps [simp del]

fun norm :: "nat \<Rightarrow> int \<Rightarrow> nat \<times> int" where
  "norm m e = (if m = 0 then (0, 0) else if even m then norm (m div 2) (e + 1) else (m, e))"

declare norm.simps [simp del]

text \<open>
  Rounding to nearest, ties to even, of the exact value \<open>m \<sqdot> 2\<^sup>e\<close>. Binary64 keeps 53
  significant bits and no bit below \<open>2\<^sup>-\<^sup>1\<^sup>0\<^sup>7\<^sup>4\<close>, so \<open>excess_bits m e\<close> low bits of \<open>m\<close>
  do not fit; \<open>half_even q r p\<close> rounds the quotient \<open>q\<close> with remainder \<open>r\<close> of a
  division by \<open>p\<close>; a result of \<open>2\<^sup>1\<^sup>0\<^sup>2\<^sup>4\<close> or more is an infinity.
\<close>

definition excess_bits :: "nat \<Rightarrow> int \<Rightarrow> nat" where
  "excess_bits m e = nat (max (int (bit_length m) - 53) (- 1074 - e))"

definition half_even :: "nat \<Rightarrow> nat \<Rightarrow> nat \<Rightarrow> nat" where
  "half_even q r p = (if 2 * r > p \<or> (2 * r = p \<and> odd q) then q + 1 else q)"

fun mk_finite :: "bool \<Rightarrow> nat \<times> int \<Rightarrow> double" where
  "mk_finite s (m, e) = Finite s m e"

definition finish :: "bool \<Rightarrow> nat \<Rightarrow> int \<Rightarrow> double" where
  "finish s q e =
     (if int (bit_length q) + e > 1024 then Infinity s else mk_finite s (norm q e))"

definition round_shift :: "bool \<Rightarrow> nat \<Rightarrow> int \<Rightarrow> nat \<Rightarrow> double" where
  "round_shift s m e k = finish s (half_even (m div 2 ^ k) (m mod 2 ^ k) (2 ^ k)) (e + int k)"

definition round_dyadic :: "bool \<Rightarrow> nat \<Rightarrow> int \<Rightarrow> double" where
  "round_dyadic s m e = round_shift s m e (excess_bits m e)"

text \<open>
  The same rounding for a quotient \<open>p / q \<sqdot> 2\<^sup>e\<close> (\<open>q > 0\<close>): the quotient is developed
  to at least 55 bits, \<open>k\<close> bits beyond the binary point, and a sticky bit records a
  non-zero remainder.
\<close>

definition sticky :: "nat \<Rightarrow> nat \<Rightarrow> nat" where
  "sticky n q = (if n mod q = 0 then 0 else 1)"

definition round_scaled :: "bool \<Rightarrow> nat \<Rightarrow> nat \<Rightarrow> int \<Rightarrow> nat \<Rightarrow> double" where
  "round_scaled s p q e k =
     round_dyadic s (2 * ((p * 2 ^ k) div q) + sticky (p * 2 ^ k) q) (e - int k - 1)"

definition round_ratio :: "bool \<Rightarrow> nat \<Rightarrow> nat \<Rightarrow> int \<Rightarrow> double" where
  "round_ratio s p q e = round_scaled s p q e ((55 + bit_length q) - bit_length p)"

definition signed :: "bool \<Rightarrow> nat \<Rightarrow> int" where
  "signed s m = (if s then - int m else int m)"

text \<open>A number literal of the source with a natural value, such as \<open>0\<close>, \<open>1\<close>, \<open>2\<close>, \<open>180\<close>.\<close>

definition D :: "nat \<Rightarrow> double" where
  "D n = round_dyadic False n 0"

text \<open>\<^verbatim>\<open>Math.PI\<close> is \<open>0x400921FB54442D18\<close> and \<^verbatim>\<open>Math.E\<close> is \<open>0x4005BF0A8B145769\<close>.\<close>

definition Math_PI :: double where
  "Math_PI = Finite False 884279719003555 (- 48)"

definition Math_E :: double where
  "Math_E = Finite False 6121026514868073 (- 51)"

text \<open>
  Two finite values are brought to the smaller of their exponents before they are
  added or compared: \<open>aligned m e f\<close> is the significand of \<open>m \<sqdot> 2\<^sup>e\<close> at exponent
  \<open>min e f\<close>.
\<close>

definition aligned :: "nat \<Rightarrow> int \<Rightarrow> int \<Rightarrow> nat" where
  "aligned m e f = m * 2 ^ nat (e - min e f)"

text \<open>
  The rounded value of the exact sum \<open>c \<sqdot> 2\<^sup>x\<close>. An exact sum of zero is \<open>+0\<close>, except
  that \<open>-0 + -0\<close> is \<open>-0\<close> (\<open>z\<close> tells that case).
\<close>

definition round_sum :: "int \<Rightarrow> int \<Rightarrow> bool \<Rightarrow> double" where
  "round_sum c x z = (if c = 0 then Finite z 0 0 else round_dyadic (c < 0) (nat \<bar>c\<bar>) x)"

fun d_neg :: "double \<Rightarrow> double" where
  "d_neg NaN = NaN"
| "d_neg (Infinity s) = Infinity (\<not> s)"
| "d_neg (Finite s m e) = Finite (\<not> s) m e"

text \<open>\<open>a + b\<close>, \<open>a - b\<close>, \<open>a * b\<close> and \<open>a / b\<close>.\<close>

fun d_add :: "double \<Rightarrow> double \<Rightarrow> double" where
  "d_add NaN _ = NaN"
| "d_add _ NaN = NaN"
| "d_add (Infinity s) (Infinity t) = (if s = t then Infinity s else NaN)"
| "d_add (Infinity s) (Finite _ _ _) = Infinity s"
| "d_add (Finite _ _ _) (Infinity t) = Infinity t"
| "d_add (Finite s m e) (Finite t n f) =
     round_sum (signed s (aligned m e f) + signed t (aligned n f e)) (min e f)
       (m = 0 \<and> n = 0 \<and> s \<and> t)"

definition d_sub :: "double \<Rightarrow> double \<Rightarrow> double" where
  "d_sub a b = d_add a (d_neg b)"

fun d_mul :: "double \<Rightarrow> double \<Rightarrow> double" where
  "d_mul NaN _ = NaN"
| "d_mul _ NaN = NaN"
| "d_mul (Infinity s) (Infinity t) = Infinity (s \<noteq> t)"
| "d_mul (Infinity s) (Finite t n f) = (if n = 0 then NaN else Infinity (s \<noteq> t))"
| "d_mul (Finite s m e) (Infinity t) = (if m = 0 then NaN else Infinity (s \<noteq> t))"
| "d_mul (Finite s m e) (Finite t n f) = round_dyadic (s \<noteq> t) (m * n) (e + f)"

fun d_div :: "double \<Rightarrow> double \<Rightarrow> double" where
  "d_div NaN _ = NaN"
| "d_div _ NaN = NaN"
| "d_div (Infinity s) (Infinity t) = NaN"
| "d_div (Infinity s) (Finite t n f) = Infinity (s \<noteq> t)"
| "d_div (Finite s m e) (Infinity t) = Finite (s \<noteq> t) 0 0"
| "d_div (Finite s m e) (Finite t n f) =
     (if n = 0 then (if m = 0 then NaN else Infinity (s \<noteq> t))
      else round_ratio (s \<noteq> t) m n (e - f))"

text \<open>
  \<open>a % b\<close>: the remainder of the truncating division, with the sign of the dividend.
  It is exact, so nothing is rounded.
\<close>

fun d_mod :: "double \<Rightarrow> double \<Rightarrow> double" where
  "d_mod NaN _ = NaN"
| "d_mod _ NaN = NaN"
| "d_mod (Infinity s) _ = NaN"
| "d_mod (Finite s m e) (Infinity t) = Finite s m e"
| "d_mod (Finite s m e) (Finite t n f) =
     (if n = 0 then NaN
      else mk_finite s (norm (aligned m e f mod aligned n f e) (min e f)))"

text \<open>The comparisons \<open>a < b\<close>, \<open>a <= b\<close> and \<open>a === b\<close>; all are false on \<open>NaN\<close>.\<close>

fun d_lt :: "double \<Rightarrow> double \<Rightarrow> bool" where
  "d_lt NaN _ = False"
| "d_lt _ NaN = False"
| "d_lt (Infinity s) (Infinity t) = (s \<and> \<not> t)"
| "d_lt (Infinity s) (Finite _ _ _) = s"
| "d_lt (Finite _ _ _) (Infinity t) = (\<not> t)"
| "d_lt (Finite s m e) (Finite t n f) = (signed s (aligned m e f) < signed t (aligned n f e))"

fun d_eq :: "double \<Rightarrow> double \<Rightarrow> bool" where
  "d_eq NaN _ = False"
| "d_eq _ NaN = False"
| "d_eq (Infinity s) (Infinity t) = (s = t)"
| "d_eq (Infinity s) (Finite _ _ _) = False"
| "d_eq (Finite _ _ _) (Infinity t) = False"
| "d_eq (Finite s m e) (Finite t n f) = (signed s (aligned m e f) = signed t (aligned n f e))"

definition d_le :: "double \<Rightarrow> double \<Rightarrow> bool" where
  "d_le a b = (d_lt a b \<or> d_eq a b)"


section \<open>The functions of \<^verbatim>\<open>Math\<close>\<close>

text \<open>
  \<^verbatim>\<open>Math.pow\<close>, the trigonometric functions, the logarithms and \<^verbatim>\<open>Math.sqrt\<close> belong to
  the JavaScript engine, which is free to approximate them. They are parameters of
  the model: functions from numbers to numbers about which nothing is assumed.
\<close>

record math =
  Math_pow :: "double \<Rightarrow> double \<Rightarrow> double"
  Math_sin :: "double \<Rightarrow> double"
  Math_cos :: "double \<Rightarrow> double"
  Math_tan :: "double \<Rightarrow> double"
  Math_asin :: "double \<Rightarrow> double"
  Math_acos :: "double \<Rightarrow> double"
  Math_atan :: "double \<Rightarrow> double"
  Math_log10 :: "double \<Rightarrow> double"
  Math_log :: "double \<Rightarrow> double"
  Math_sqrt :: "double \<Rightarrow> double"

section \<open>Values and errors\<close>

text \<open>
  The evaluation stack holds numbers only; reading an array where it has no element
  gives \<^verbatim>\<open>undefined\<close>, which arithmetic converts to \<open>NaN\<close>. The two \<^verbatim>\<open>throw\<close> statements
  of the source are the two errors.
\<close>

datatype jsval = Undefined | Number double

fun to_number :: "jsval \<Rightarrow> double" where
  "to_number Undefined = NaN"
| "to_number (Number d) = d"

datatype error = InvalidOperator | InvalidFactorial

fun message :: "error \<Rightarrow> string" where
  "message InvalidOperator = ''Invalid operator''"
| "message InvalidFactorial = ''Invalid factorial''"

section \<open>\<^verbatim>\<open>tokenize\<close>\<close>

text \<open>
  An expression is a string; \<open>\<pi>\<close> (U+03C0), the only character of the pattern outside
  ASCII, is written as the two bytes of its UTF-8 form, which occur in a text only
  where \<open>\<pi>\<close> does.
\<close>

definition pi_token :: string where
  "pi_token = [CHR 0xCF, CHR 0x80]"

definition is_digit :: "char \<Rightarrow> bool" where
  "is_digit c = (c \<in> set ''0123456789'')"

text \<open>\<^verbatim>\<open>\d+\.?\d*\<close> at the start of a string: the match and the rest of the string.\<close>

fun after_digits :: "string \<Rightarrow> string \<Rightarrow> string \<times> string" where
  "after_digits ds [] = (ds, [])"
| "after_digits ds (c # r) =
     (if c = CHR ''.'' then (ds @ c # takeWhile is_digit r, dropWhile is_digit r)
      else (ds, c # r))"

definition match_number :: "string \<Rightarrow> (string \<times> string) option" where
  "match_number s =
     (if takeWhile is_digit s = [] then None
      else Some (after_digits (takeWhile is_digit s) (dropWhile is_digit s)))"

definition words :: "string list" where
  "words = [''sin'', ''cos'', ''tan'', ''asin'', ''acos'', ''atan'', ''log'', ''ln'',
            ''sqrt'', ''fact'', pi_token, ''e'', ''i'']"

definition starts_with :: "string \<Rightarrow> string \<Rightarrow> bool" where
  "starts_with s w = (take (length w) s = w)"

text \<open>
  The alternatives of the pattern are tried in the order in which they are written,
  at one position of the string; the first that matches is the token.
\<close>

definition match_at :: "string \<Rightarrow> string option" where
  "match_at s =
     (case match_number s of
        Some (t, r) \<Rightarrow> Some t
      | None \<Rightarrow>
          if s \<noteq> [] \<and> hd s \<in> set ''+-*/^()'' then Some [hd s]
          else find (starts_with s) words)"

text \<open>
  \<^verbatim>\<open>expr.match(/.../g) || []\<close>: all matches from left to right, each search starting
  where the last match ended; a character at which nothing matches is passed over.
\<close>

function tokenize :: "string \<Rightarrow> string list" where
  "tokenize [] = []"
| "tokenize (c # cs) =
     (case match_at (c # cs) of
        None \<Rightarrow> tokenize cs
      | Some t \<Rightarrow> t # tokenize (drop (length t) (c # cs)))"
  by pat_completeness auto
termination
proof (relation "measure length")
  show "wf (measure length)" by simp
next
  fix c :: char and cs :: string
  show "(cs, c # cs) \<in> measure length" by simp
next
  fix c :: char and cs t :: string
  assume m: "match_at (c # cs) = Some t"
  have "t \<noteq> []"
  proof (cases "match_number (c # cs)")
    case None
    show ?thesis
    proof (cases "c \<in> set ''+-*/^()''")
      case True
      with m None show ?thesis by (auto simp: match_at_def)
    next
      case False
      with m None have "find (starts_with (c # cs)) words = Some t"
        by (auto simp: match_at_def)
      then have "t \<in> set words"
        by (auto simp: find_Some_iff)
      then show ?thesis by (auto simp: words_def pi_token_def)
    qed
  next
    case (Some p)
    then have "takeWhile is_digit (c # cs) \<noteq> []"
      by (auto simp: match_number_def split: if_splits)
    moreover from Some m
    have "t = fst (after_digits (takeWhile is_digit (c # cs)) (dropWhile is_digit (c # cs)))"
      by (auto simp: match_at_def match_number_def split: if_splits prod.splits)
    ultimately show ?thesis
      by (cases "dropWhile is_digit (c # cs)") (auto split: if_splits)
  qed
  then show "(drop (length t) (c # cs), c # cs) \<in> measure length"
    by (cases t) auto
qed

section \<open>The output queue\<close>

text \<open>
  An element of \<^verbatim>\<open>outputQueue\<close> is a token, which is a string, or one of the numbers
  \<^verbatim>\<open>Math.PI\<close> and \<^verbatim>\<open>Math.E\<close>.

  \<^verbatim>\<open>isNaN\<close> converts its argument to a number. Of the strings that the pattern of
  \<^verbatim>\<open>tokenize\<close> matches, those of the form \<^verbatim>\<open>\d+\.?\d*\<close> convert to a number and all
  others to \<open>NaN\<close>; this is what \<open>is_number_token\<close> decides. \<^verbatim>\<open>parseFloat\<close> of such a
  token is the double nearest to the decimal it spells; \<^verbatim>\<open>parseFloat\<close> of a number
  goes through its shortest decimal spelling, which gives the number back, a zero
  without its sign.
\<close>

datatype item = Str string | Num double

definition is_number_token :: "string \<Rightarrow> bool" where
  "is_number_token s = (match_number s = Some (s, []))"

definition digit_val :: "char \<Rightarrow> nat" where
  "digit_val c = of_char c - of_char CHR ''0''"

definition digits_value :: "string \<Rightarrow> nat" where
  "digits_value ds = foldl (\<lambda>a c. 10 * a + digit_val c) 0 ds"

definition number_value :: "string \<Rightarrow> double" where
  "number_value s =
     round_ratio False (digits_value (filter is_digit s))
       (10 ^ length (drop 1 (dropWhile is_digit s))) 0"

fun isNaN_item :: "item \<Rightarrow> bool" where
  "isNaN_item (Str s) = (\<not> is_number_token s)"
| "isNaN_item (Num d) = (d = NaN)"

fun parseFloat_item :: "item \<Rightarrow> double" where
  "parseFloat_item (Str s) = number_value s"
| "parseFloat_item (Num d) = (if d_eq d (D 0) then D 0 else d)"

section \<open>\<^verbatim>\<open>parseAndEvaluate\<close>: the conversion to postfix\<close>

text \<open>
  \<^verbatim>\<open>parseAndEvaluate\<close> converts the tokens to postfix and hands the output queue to
  \<^verbatim>\<open>evaluatePostfix\<close>. The conversion is kept apart here: \<open>shunt\<close> is the body of
  its \<^verbatim>\<open>forEach\<close>, on the pair of \<^verbatim>\<open>outputQueue\<close> and \<^verbatim>\<open>operatorStack\<close>; \<open>flush\<close> is the
  loop that empties the operator stack at the end; \<open>to_postfix\<close> is the queue that is
  handed over. \<open>function_names\<close> is the array \<^verbatim>\<open>functions\<close> and \<open>precedence\<close> the table
  of that name. No statement of the conversion can throw.
\<close>

definition function_names :: "string list" where
  "function_names = [''sin'', ''cos'', ''tan'', ''asin'', ''acos'', ''atan'', ''log'', ''ln'',
                ''sqrt'', ''fact'']"

definition precedence :: "string \<Rightarrow> nat option" where
  "precedence = map_of [(''+'', 1), (''-'', 1), (''*'', 2), (''/'', 2), (''^'', 3)]"

text \<open>\<^verbatim>\<open>>=\<close> between two table entries; it is false when either is missing.\<close>

fun js_ge :: "nat option \<Rightarrow> nat option \<Rightarrow> bool" where
  "js_ge (Some a) (Some b) = (b \<le> a)"
| "js_ge _ _ = False"

definition binds :: "string \<Rightarrow> string \<Rightarrow> bool" where
  "binds token x = js_ge (precedence x) (precedence token)"

text \<open>
  \<^verbatim>\<open>operatorStack\<close> is a list whose head is the top of the stack, so that a loop which
  pops while a test holds moves the longest prefix that passes the test.
\<close>

definition resolve :: "string \<Rightarrow> item" where
  "resolve token =
     (if token = pi_token then Num Math_PI else if token = ''e'' then Num Math_E else Str token)"

fun call_closed :: "item list \<Rightarrow> string list \<Rightarrow> item list \<times> string list" where
  "call_closed out [] = (out, [])"
| "call_closed out (f # ops) =
     (if f \<in> set function_names then (out @ [Str f], ops) else (out, f # ops))"

definition close_paren :: "item list \<Rightarrow> string list \<Rightarrow> item list \<times> string list" where
  "close_paren out ops =
     call_closed (out @ map Str (takeWhile (\<lambda>x. x \<noteq> ''('') ops))
       (drop 1 (dropWhile (\<lambda>x. x \<noteq> ''('') ops))"

definition push_operator :: "item list \<Rightarrow> string list \<Rightarrow> string \<Rightarrow> item list \<times> string list" where
  "push_operator out ops token =
     (out @ map Str (takeWhile (binds token) ops), token # dropWhile (binds token) ops)"

fun shunt :: "item list \<times> string list \<Rightarrow> string \<Rightarrow> item list \<times> string list" where
  "shunt (out, ops) token =
     (if is_number_token token \<or> token = pi_token \<or> token = ''e'' \<or> token = ''i''
      then (out @ [resolve token], ops)
      else if token \<in> set function_names then (out, token # ops)
      else if token = ''('' then (out, token # ops)
      else if token = '')'' then close_paren out ops
      else push_operator out ops token)"

fun flush :: "item list \<times> string list \<Rightarrow> item list" where
  "flush (out, ops) = out @ map Str ops"

definition to_postfix :: "string list \<Rightarrow> item list" where
  "to_postfix tokens = flush (foldl shunt ([], []) tokens)"

section \<open>\<^verbatim>\<open>factorial\<close> and \<^verbatim>\<open>applyOperator\<close>\<close>

text \<open>
  The \<^verbatim>\<open>for\<close> loop of \<^verbatim>\<open>factorial\<close> counts in doubles, so it need not end; \<open>None\<close> is
  a call that does not return.
\<close>

partial_function (option) factorial_loop :: "double \<Rightarrow> double \<Rightarrow> double \<Rightarrow> double option" where
  "factorial_loop n i result =
     (if d_le i n then factorial_loop n (d_add i (D 1)) (d_mul result i) else Some result)"

declare factorial_loop.simps [code]

definition factorial :: "jsval \<Rightarrow> (error + double) option" where
  "factorial n =
     (if d_lt (to_number n) (D 0) \<or> \<not> d_eq (d_mod (to_number n) (D 1)) (D 0)
      then Some (Inl InvalidFactorial)
      else if d_eq (to_number n) (D 0) then Some (Inr (D 1))
      else map_option Inr (factorial_loop (to_number n) (D 2) (D 1)))"

text \<open>\<^verbatim>\<open>isRadian\<close> is the angle mode: \<open>True\<close> for radians, \<open>False\<close> for degrees.\<close>

definition angle :: "bool \<Rightarrow> double \<Rightarrow> double" where
  "angle isRadian val = (if isRadian then val else d_div (d_mul val Math_PI) (D 180))"

definition invAngle :: "bool \<Rightarrow> double \<Rightarrow> double" where
  "invAngle isRadian val = (if isRadian then val else d_div (d_mul val (D 180)) Math_PI)"

fun applyOperator :: "math \<Rightarrow> bool \<Rightarrow> item \<Rightarrow> jsval \<Rightarrow> jsval \<Rightarrow> (error + double) option" where
  "applyOperator M isRadian (Num d) a b = Some (Inl InvalidOperator)"
| "applyOperator M isRadian (Str op) a b =
     (if op = ''+'' then Some (Inr (d_add (to_number a) (to_number b)))
      else if op = ''-'' then Some (Inr (d_sub (to_number a) (to_number b)))
      else if op = ''*'' then Some (Inr (d_mul (to_number a) (to_number b)))
      else if op = ''/'' then Some (Inr (d_div (to_number a) (to_number b)))
      else if op = ''^'' then Some (Inr (Math_pow M (to_number a) (to_number b)))
      else if op = ''sin'' then Some (Inr (Math_sin M (angle isRadian (to_number a))))
      else if op = ''cos'' then Some (Inr (Math_cos M (angle isRadian (to_number a))))
      else if op = ''tan'' then Some (Inr (Math_tan M (angle isRadian (to_number a))))
      else if op = ''asin'' then Some (Inr (invAngle isRadian (Math_asin M (to_number a))))
      else if op = ''acos'' then Some (Inr (invAngle isRadian (Math_acos M (to_number a))))
      else if op = ''atan'' then Some (Inr (invAngle isRadian (Math_atan M (to_number a))))
      else if op = ''log'' then Some (Inr (Math_log10 M (to_number a)))
      else if op = ''ln'' then Some (Inr (Math_log M (to_number a)))
      else if op = ''sqrt'' then Some (Inr (Math_sqrt M (to_number a)))
      else if op = ''fact'' then factorial a
      else Some (Inl InvalidOperator))"

section \<open>\<^verbatim>\<open>evaluatePostfix\<close>\<close>

text \<open>
  \<^verbatim>\<open>stack\<close> is a list whose head is the top; \<^verbatim>\<open>pop\<close> on the empty array returns
  \<^verbatim>\<open>undefined\<close> and leaves it empty, and \<^verbatim>\<open>stack[0]\<close> is the element pushed first.
\<close>

fun pop :: "double list \<Rightarrow> jsval \<times> double list" where
  "pop [] = (Undefined, [])"
| "pop (x # stack) = (Number x, stack)"

fun is_function :: "item \<Rightarrow> bool" where
  "is_function (Str s) = (s \<in> set function_names)"
| "is_function (Num d) = False"

fun push_result :: "(error + double) option \<Rightarrow> double list \<Rightarrow> (error + double list) option" where
  "push_result None stack = None"
| "push_result (Some (Inl err)) stack = Some (Inl err)"
| "push_result (Some (Inr v)) stack = Some (Inr (v # stack))"

definition apply_token :: "math \<Rightarrow> bool \<Rightarrow> item \<Rightarrow> double list \<Rightarrow> (error + double list) option" where
  "apply_token M isRadian token stack =
     (if is_function token
      then push_result (applyOperator M isRadian token (fst (pop stack)) (fst (pop stack)))
             (snd (pop stack))
      else push_result
             (applyOperator M isRadian token (fst (pop (snd (pop stack)))) (fst (pop stack)))
             (snd (pop (snd (pop stack)))))"

definition eval_token :: "math \<Rightarrow> bool \<Rightarrow> double list \<Rightarrow> item \<Rightarrow> (error + double list) option" where
  "eval_token M isRadian stack token =
     (if \<not> isNaN_item token then Some (Inr (parseFloat_item token # stack))
      else apply_token M isRadian token stack)"

fun eval_loop :: "math \<Rightarrow> bool \<Rightarrow> double list \<Rightarrow> item list \<Rightarrow> (error + double list) option" where
  "eval_loop M isRadian stack [] = Some (Inr stack)"
| "eval_loop M isRadian stack (token # postfix) =
     (case eval_token M isRadian stack token of
        None \<Rightarrow> None
      | Some (Inl err) \<Rightarrow> Some (Inl err)
      | Some (Inr stack') \<Rightarrow> eval_loop M isRadian stack' postfix)"

fun stack0 :: "double list \<Rightarrow> jsval" where
  "stack0 [] = Undefined"
| "stack0 (x # stack) = Number (last (x # stack))"

fun returned :: "(error + double list) option \<Rightarrow> (error + jsval) option" where
  "returned None = None"
| "returned (Some (Inl err)) = Some (Inl err)"
| "returned (Some (Inr stack)) = Some (Inr (stack0 stack))"

definition evaluatePostfix :: "math \<Rightarrow> bool \<Rightarrow> item list \<Rightarrow> (error + jsval) option" where
  "evaluatePostfix M isRadian postfix = returned (eval_loop M isRadian [] postfix)"

definition parseAndEvaluate :: "math \<Rightarrow> bool \<Rightarrow> string \<Rightarrow> (error + jsval) option" where
  "parseAndEvaluate M isRadian expr = evaluatePostfix M isRadian (to_postfix (tokenize expr))"

section \<open>A sample engine\<close>

text \<open>
  One instance of the \<^verbatim>\<open>Math\<close> functions, to run the model on concrete inputs: a power
  with a whole, non-negative exponent is the correctly rounded power, and nothing
  else is computed. No general theorem below depends on it.
\<close>

fun sample_pow :: "double \<Rightarrow> double \<Rightarrow> double" where
  "sample_pow (Finite s m e) (Finite False n f) =
     (if 0 \<le> f
      then round_dyadic (s \<and> odd (n * 2 ^ nat f)) (m ^ (n * 2 ^ nat f)) (e * int (n * 2 ^ nat f))
      else NaN)"
| "sample_pow _ _ = NaN"

definition sample_math :: math where
  "sample_math =
     \<lparr>Math_pow = sample_pow, Math_sin = (\<lambda>x. NaN), Math_cos = (\<lambda>x. NaN),
      Math_tan = (\<lambda>x. NaN), Math_asin = (\<lambda>x. NaN), Math_acos = (\<lambda>x. NaN),
      Math_atan = (\<lambda>x. NaN), Math_log10 = (\<lambda>x. NaN), Math_log = (\<lambda>x. NaN),
      Math_sqrt = (\<lambda>x. NaN)\<rparr>"

section \<open>The vocabulary of the properties\<close>

text \<open>
  A number is negative when it is below zero (\<open>-0\<close> is not), and it has a fractional
  part when it is finite and not whole.
\<close>

fun is_negative :: "double \<Rightarrow> bool" where
  "is_negative NaN = False"
| "is_negative (Infinity s) = s"
| "is_negative (Finite s m e) = (s \<and> 0 < m)"

fun has_fraction :: "double \<Rightarrow> bool" where
  "has_fraction (Finite s m e) = (e < 0 \<and> \<not> 2 ^ nat (- e) dvd m)"
| "has_fraction _ = False"

text \<open>
  The iterative product from \<open>2\<close> up to \<open>k\<close>, each product rounded to a double as the
  loop of \<^verbatim>\<open>factorial\<close> rounds it.
\<close>

definition product_upto :: "nat \<Rightarrow> double" where
  "product_upto k = foldl d_mul (D 1) (map D [2..<Suc k])"

text \<open>
  The conversions of the angle mode written with one factor, the double nearest to
  \<open>\<pi>/180\<close> or to \<open>180/\<pi>\<close>; \<^verbatim>\<open>angle\<close> and \<^verbatim>\<open>invAngle\<close> are compared with them.
\<close>

definition angle_by_factor :: "bool \<Rightarrow> double \<Rightarrow> double" where
  "angle_by_factor isRadian val = (if isRadian then val else d_mul val (d_div Math_PI (D 180)))"

definition invAngle_by_factor :: "bool \<Rightarrow> double \<Rightarrow> double" where
  "invAngle_by_factor isRadian val = (if isRadian then val else d_mul val (d_div (D 180) Math_PI))"

text \<open>
  Well-formed token sequences: an operand is a number or a constant, a binary
  operator is a token of the precedence table. Read from left to right, a sequence
  is well formed when operands and operators alternate, beginning and ending with an
  operand, where a function name or a left parenthesis may stand before an operand
  and a right parenthesis after one, each right parenthesis closing a left one and
  none left open. \<open>well_formed_from operand_next depth\<close> reads the rest of a sequence
  when an operand is (or is not) due and \<open>depth\<close> parentheses are open.
\<close>

definition is_operand :: "string \<Rightarrow> bool" where
  "is_operand t = (is_number_token t \<or> t = pi_token \<or> t = ''e'' \<or> t = ''i'')"

definition is_operator :: "string \<Rightarrow> bool" where
  "is_operator t = (precedence t \<noteq> None)"

fun well_formed_from :: "bool \<Rightarrow> nat \<Rightarrow> string list \<Rightarrow> bool" where
  "well_formed_from operand_next depth [] = (\<not> operand_next \<and> depth = 0)"
| "well_formed_from True depth (t # ts) =
     (if is_operand t then well_formed_from False depth ts
      else if t \<in> set function_names then well_formed_from True depth ts
      else if t = ''('' then well_formed_from True (Suc depth) ts
      else False)"
| "well_formed_from False depth (t # ts) =
     (if is_operator t then well_formed_from True depth ts
      else if t = '')'' \<and> 0 < depth then well_formed_from False (depth - 1) ts
      else False)"

definition well_formed :: "string list \<Rightarrow> bool" where
  "well_formed ts = well_formed_from True 0 ts"

text \<open>
  An evaluation never pops an empty stack when every token it applies finds as many
  values on the stack as it pops: one for a function, two for anything else. The
  evaluation is followed for as long as it goes on.
\<close>

fun arity :: "item \<Rightarrow> nat" where
  "arity token = (if is_function token then 1 else 2)"

fun never_pops_empty :: "math \<Rightarrow> bool \<Rightarrow> double list \<Rightarrow> item list \<Rightarrow> bool" where
  "never_pops_empty M isRadian stack [] = True"
| "never_pops_empty M isRadian stack (token # postfix) =
     ((if isNaN_item token then arity token \<le> length stack else True) \<and>
      (case eval_token M isRadian stack token of
         Some (Inr stack') \<Rightarrow> never_pops_empty M isRadian stack' postfix
       | _ \<Rightarrow> True))"

text \<open>
  For the proofs: the height of the stack after a postfix sequence, when no token
  of it finds the stack too low; the items that \<^verbatim>\<open>applyOperator\<close> has a case for; the
  operators and the left parentheses on the operator stack; and what holds of the
  output queue and the operator stack while a well-formed sequence is converted.
\<close>

fun height :: "nat \<Rightarrow> item list \<Rightarrow> nat option" where
  "height h [] = Some h"
| "height h (token # postfix) =
     (if \<not> isNaN_item token then height (Suc h) postfix
      else if arity token \<le> h then height (Suc (h - arity token)) postfix
      else None)"

fun known :: "item \<Rightarrow> bool" where
  "known (Str s) = (is_number_token s \<or> is_operator s \<or> s \<in> set function_names)"
| "known (Num d) = (d \<noteq> NaN)"

definition binops :: "string list \<Rightarrow> nat" where
  "binops ops = length (filter is_operator ops)"

definition parens :: "string list \<Rightarrow> nat" where
  "parens ops = length (filter (\<lambda>x. x = ''('') ops)"

definition shunt_inv :: "bool \<Rightarrow> nat \<Rightarrow> item list \<Rightarrow> string list \<Rightarrow> bool" where
  "shunt_inv operand_next depth out ops =
     (height 0 out = Some (binops ops + (if operand_next then 0 else 1))
      \<and> parens ops = depth
      \<and> (\<forall>x \<in> set ops. is_operator x \<or> x \<in> set function_names \<or> x = ''('')
      \<and> (\<forall>t \<in> set out. known t))"

section \<open>Evaluation of the model on literals\<close>

lemma bit_length_numeral:
  "bit_length 0 = 0"
  "bit_length 1 = 1"
  "bit_length (Suc 0) = 1"
  "bit_length (numeral Num.One) = 1"
  "bit_length (numeral (Num.Bit0 k)) = 1 + bit_length (numeral k)"
  "bit_length (numeral (Num.Bit1 k)) = 1 + bit_length (numeral k)"
  by (subst bit_length.simps,
      simp add: bit_length.simps [of 0] numeral_Bit0_div_2 numeral_Bit1_div_2)+

lemma norm_numeral:
  "norm 0 e = (0, 0)"
  "norm 1 e = (1, e)"
  "norm (Suc 0) e = (1, e)"
  "norm (numeral Num.One) e = (1, e)"
  "norm (numeral (Num.Bit0 k)) e = norm (numeral k) (e + 1)"
  "norm (numeral (Num.Bit1 k)) e = (numeral (Num.Bit1 k), e)"
  by (subst norm.simps, simp add: numeral_Bit0_div_2)+

lemmas dbl_eval = bit_length_numeral norm_numeral excess_bits_def half_even_def finish_def
  round_shift_def round_dyadic_def sticky_def round_scaled_def round_ratio_def signed_def
  D_def aligned_def round_sum_def d_sub_def d_le_def

lemmas tok_eval = match_at_def match_number_def is_digit_def words_def starts_with_def
  pi_token_def

lemmas shunt_eval = to_postfix_def is_number_token_def function_names_def precedence_def
  binds_def resolve_def close_paren_def push_operator_def

lemmas run_eval = evaluatePostfix_def eval_token_def apply_token_def number_value_def
  digits_value_def digit_val_def

lemmas all_eval = parseAndEvaluate_def tok_eval shunt_eval run_eval dbl_eval

section \<open>The tokens that \<^verbatim>\<open>tokenize\<close> returns\<close>

text \<open>
  Every token is a number of the form \<^verbatim>\<open>\d+\.?\d*\<close>, one of the names of the pattern, or
  one of the characters \<^verbatim>\<open>+ - * / ^ ( )\<close>. These are the strings on which the model reads
  \<^verbatim>\<open>isNaN\<close> and \<^verbatim>\<open>parseFloat\<close>.
\<close>

lemma digits_only:
  assumes "\<forall>c \<in> set ds. is_digit c"
  shows "takeWhile is_digit (ds @ r) = ds @ takeWhile is_digit r"
    and "dropWhile is_digit (ds @ r) = dropWhile is_digit r"
  using assms by (simp_all add: takeWhile_append2 dropWhile_append2)

lemma number_match:
  assumes "match_number s = Some (t, r)"
  shows "is_number_token t"
proof -
  let ?ds = "takeWhile is_digit s" and ?rest = "dropWhile is_digit s"
  from assms have ne: "?ds \<noteq> []" and a: "after_digits ?ds ?rest = (t, r)"
    by (auto simp: match_number_def split: if_splits)
  have ds: "\<forall>c \<in> set ?ds. is_digit c"
    by (auto dest: set_takeWhileD)
  have dw: "dropWhile is_digit ?ds = []"
    using ds by simp
  have plain: "is_number_token ?ds"
    using ne by (simp add: is_number_token_def match_number_def dw)
  show ?thesis
  proof (cases ?rest)
    case Nil
    with a plain show ?thesis by simp
  next
    case (Cons c r')
    show ?thesis
    proof (cases "c = CHR ''.''")
      case False
      with a Cons plain show ?thesis by simp
    next
      case True
      let ?fs = "takeWhile is_digit r'"
      from a Cons True have t: "t = ?ds @ CHR ''.'' # ?fs" by simp
      have fs: "\<forall>c \<in> set ?fs. is_digit c"
        by (auto dest: set_takeWhileD)
      have dot: "\<not> is_digit CHR ''.''" by (simp add: is_digit_def)
      from digits_only [OF ds, of "CHR ''.'' # ?fs"] dot
      have 1: "takeWhile is_digit t = ?ds" "dropWhile is_digit t = CHR ''.'' # ?fs"
        by (simp_all add: t)
      have 2: "takeWhile is_digit ?fs = ?fs" "dropWhile is_digit ?fs = []"
        using fs by simp_all
      from ne show ?thesis
        by (simp add: is_number_token_def match_number_def 1 2) (simp add: t)
    qed
  qed
qed

lemma match_at_shape:
  assumes "match_at s = Some t"
  shows "is_number_token t \<or> t \<in> set words \<or> (\<exists>c \<in> set ''+-*/^()''. t = [c])"
proof (cases "match_number s")
  case (Some p)
  with assms have "match_number s = Some (t, snd p)"
    by (cases p) (simp add: match_at_def)
  then show ?thesis by (simp add: number_match)
next
  case None
  show ?thesis
  proof (cases "s \<noteq> [] \<and> hd s \<in> set ''+-*/^()''")
    case True
    with assms None have "t = [hd s]" by (simp add: match_at_def)
    with True show ?thesis by blast
  next
    case False
    with assms None have "find (starts_with s) words = Some t"
      by (auto simp: match_at_def)
    then have "t \<in> set words" by (auto simp: find_Some_iff)
    then show ?thesis by simp
  qed
qed

lemma tokenize_shape:
  "t \<in> set (tokenize s) \<Longrightarrow>
   is_number_token t \<or> t \<in> set words \<or> (\<exists>c \<in> set ''+-*/^()''. t = [c])"
proof (induction s rule: tokenize.induct)
  case 1
  then show ?case by simp
next
  case (2 c cs)
  show ?case
  proof (cases "match_at (c # cs)")
    case None
    with "2.prems" have "t \<in> set (tokenize cs)" by simp
    with None show ?thesis by (rule "2.IH"(1))
  next
    case (Some t')
    with "2.prems" have "t = t' \<or> t \<in> set (tokenize (drop (length t') (c # cs)))"
      by simp
    then show ?thesis
    proof
      assume "t = t'"
      with Some show ?thesis by (simp only: match_at_shape)
    next
      assume "t \<in> set (tokenize (drop (length t') (c # cs)))"
      with Some show ?thesis by (rule "2.IH"(2))
    qed
  qed
qed

text \<open>
  \<^verbatim>\<open>Math.PI\<close> and \<^verbatim>\<open>Math.E\<close> are the doubles that JavaScript writes
  \<^verbatim>\<open>3.141592653589793\<close> and \<^verbatim>\<open>2.718281828459045\<close>; \<^verbatim>\<open>parseFloat\<close> of these spellings gives
  them back.
\<close>

lemma Math_constants:
  "number_value ''3.141592653589793'' = Math_PI"
  "number_value ''2.718281828459045'' = Math_E"
  by (simp_all add: run_eval is_digit_def dbl_eval Math_PI_def Math_E_def)

section \<open>Operator precedence on concrete inputs\<close>

text \<open>
  C8. The tokens of \<^verbatim>\<open>"12+3*4"\<close> are \<open>12\<close>, \<open>+\<close>, \<open>3\<close>, \<open>*\<close>, \<open>4\<close>, where a number token is
  the string of its digits and stands for the number it spells; the postfix sequence
  is \<open>12 3 4 * +\<close> and its value is \<open>24\<close>. Also \<^verbatim>\<open>"2+3*4"\<close> gives \<open>14\<close> and \<^verbatim>\<open>"(2+3)*4"\<close>
  gives \<open>20\<close>, in either angle mode and whatever the engine's \<^verbatim>\<open>Math\<close> functions are.
\<close>

theorem precedence_examples:
  "tokenize ''12+3*4'' = [''12'', ''+'', ''3'', ''*'', ''4'']
   \<and> map number_value [''12'', ''3'', ''4''] = [D 12, D 3, D 4]
   \<and> to_postfix [''12'', ''+'', ''3'', ''*'', ''4'']
       = [Str ''12'', Str ''3'', Str ''4'', Str ''*'', Str ''+'']
   \<and> evaluatePostfix M isRadian [Str ''12'', Str ''3'', Str ''4'', Str ''*'', Str ''+'']
       = Some (Inr (Number (D 24)))
   \<and> parseAndEvaluate M isRadian ''12+3*4'' = Some (Inr (Number (D 24)))
   \<and> parseAndEvaluate M isRadian ''2+3*4'' = Some (Inr (Number (D 14)))
   \<and> parseAndEvaluate M isRadian ''(2+3)*4'' = Some (Inr (Number (D 20)))"
proof (intro conjI)
  show "tokenize ''12+3*4'' = [''12'', ''+'', ''3'', ''*'', ''4'']"
    by (simp add: tok_eval)
  show "map number_value [''12'', ''3'', ''4''] = [D 12, D 3, D 4]"
    by (simp add: run_eval is_digit_def dbl_eval)
  show "to_postfix [''12'', ''+'', ''3'', ''*'', ''4'']
        = [Str ''12'', Str ''3'', Str ''4'', Str ''*'', Str ''+'']"
    by (simp add: shunt_eval tok_eval)
  show "evaluatePostfix M isRadian [Str ''12'', Str ''3'', Str ''4'', Str ''*'', Str ''+'']
        = Some (Inr (Number (D 24)))"
    by (simp add: run_eval shunt_eval tok_eval dbl_eval)
  show "parseAndEvaluate M isRadian ''12+3*4'' = Some (Inr (Number (D 24)))"
    by (simp add: all_eval)
  show "parseAndEvaluate M isRadian ''2+3*4'' = Some (Inr (Number (D 14)))"
    by (simp add: all_eval)
  show "parseAndEvaluate M isRadian ''(2+3)*4'' = Some (Inr (Number (D 20)))"
    by (simp add: all_eval)
qed

theorem precedence_examples_witness:
  "parseAndEvaluate sample_math True ''12+3*4'' = Some (Inr (Number (Finite False 3 3)))
   \<and> parseAndEvaluate sample_math False ''(2+3)*4'' = Some (Inr (Number (Finite False 5 2)))"
  using precedence_examples [of sample_math True] precedence_examples [of sample_math False]
  by (simp add: dbl_eval)

section \<open>Division by zero\<close>

text \<open>
  C9. \<^verbatim>\<open>"5/0"\<close> evaluates to positive infinity and \<^verbatim>\<open>"0/0"\<close> to \<open>NaN\<close>; both evaluations
  return normally.
\<close>

theorem division_by_zero:
  "parseAndEvaluate M isRadian ''5/0'' = Some (Inr (Number (Infinity False)))
   \<and> parseAndEvaluate M isRadian ''0/0'' = Some (Inr (Number NaN))"
  by (simp add: all_eval)

theorem division_by_zero_witness:
  "parseAndEvaluate sample_math True ''5/0'' = Some (Inr (Number (Infinity False)))
   \<and> parseAndEvaluate sample_math True ''0/0'' = Some (Inr (Number NaN))"
  using division_by_zero [of sample_math True] by simp

section \<open>Exponentiation groups to the left\<close>

lemma number_token_digit: "is_number_token t \<Longrightarrow> t \<noteq> [] \<and> is_digit (hd t)"
proof -
  assume "is_number_token t"
  then have "takeWhile is_digit t \<noteq> []"
    by (auto simp: is_number_token_def match_number_def split: if_splits)
  then show ?thesis
    by (cases t) (auto split: if_splits)
qed

lemma digit_not_symbol:
  "is_digit c \<Longrightarrow> c \<notin> set ''sctaleif()+-*/^'' \<and> c \<noteq> CHR 0xCF"
  by (auto simp: is_digit_def)

lemma number_token_plain:
  assumes "is_number_token t"
  shows "t \<noteq> pi_token" "t \<noteq> ''e''" "t \<noteq> ''i''" "t \<noteq> ''(''" "t \<noteq> '')''"
    "t \<notin> set function_names" "precedence t = None"
proof -
  from number_token_digit [OF assms] obtain c cs where t: "t = c # cs" and "is_digit c"
    by (cases t) auto
  from digit_not_symbol [OF this(2)]
  have c: "c \<noteq> CHR ''s''" "c \<noteq> CHR ''c''" "c \<noteq> CHR ''t''" "c \<noteq> CHR ''a''" "c \<noteq> CHR ''l''"
    "c \<noteq> CHR ''e''" "c \<noteq> CHR ''i''" "c \<noteq> CHR ''f''" "c \<noteq> CHR ''(''" "c \<noteq> CHR '')''"
    "c \<noteq> CHR ''+''" "c \<noteq> CHR ''-''" "c \<noteq> CHR ''*''" "c \<noteq> CHR ''/''" "c \<noteq> CHR ''^''"
    "c \<noteq> CHR 0xCF"
    by simp_all
  show "t \<noteq> pi_token" "t \<noteq> ''e''" "t \<noteq> ''i''" "t \<noteq> ''(''" "t \<noteq> '')''"
    "t \<notin> set function_names" "precedence t = None"
    using c by (simp_all add: t pi_token_def function_names_def precedence_def)
qed

lemma precedence_Some:
  "precedence t = Some p \<Longrightarrow> t \<in> {''+'', ''-'', ''*'', ''/'', ''^''}"
  by (auto simp: precedence_def split: if_splits)

lemma operator_plain:
  assumes "precedence t = Some p"
  shows "\<not> is_number_token t" "t \<noteq> pi_token" "t \<noteq> ''e''" "t \<noteq> ''i''" "t \<noteq> ''(''"
    "t \<noteq> '')''" "t \<notin> set function_names"
  using precedence_Some [OF assms] number_token_plain(7) [of t] assms
  by (auto simp: pi_token_def function_names_def)


lemma shunt_operator:
  "precedence t = Some p \<Longrightarrow>
   shunt (out, ops) t = (out @ map Str (takeWhile (binds t) ops), t # dropWhile (binds t) ops)"
  by (simp add: operator_plain push_operator_def)



section \<open>An expression without tokens\<close>

lemma tokenize_none:
  "(\<forall>n < length expr. match_at (drop n expr) = None) \<Longrightarrow> tokenize expr = []"
proof (induction expr)
  case Nil
  show ?case by simp
next
  case (Cons c cs)
  from Cons.prems have "match_at (drop 0 (c # cs)) = None"
    by blast
  moreover have "\<forall>n < length cs. match_at (drop n cs) = None"
  proof (intro allI impI)
    fix n assume "n < length cs"
    with Cons.prems have "match_at (drop (Suc n) (c # cs)) = None"
      by (metis Suc_less_eq length_Cons)
    then show "match_at (drop n cs) = None" by simp
  qed
  ultimately show ?case
    using Cons.IH by simp
qed

text \<open>
  C10. When the pattern matches at no position of the expression, as in the empty
  string, there is no token, the postfix sequence is empty, and the evaluation
  returns \<^verbatim>\<open>undefined\<close>, the first element of the empty stack; it raises no error and
  returns no number.
\<close>

theorem no_token_undefined:
  assumes "\<forall>n < length expr. match_at (drop n expr) = None"
  shows "tokenize expr = []
    \<and> to_postfix (tokenize expr) = []
    \<and> evaluatePostfix M isRadian (to_postfix (tokenize expr)) = Some (Inr Undefined)
    \<and> parseAndEvaluate M isRadian expr = Some (Inr Undefined)"
  using tokenize_none [OF assms]
  by (simp add: parseAndEvaluate_def to_postfix_def evaluatePostfix_def)

theorem no_token_undefined_witness:
  "parseAndEvaluate sample_math True [] = Some (Inr Undefined)
   \<and> tokenize ''a b'' = []
   \<and> parseAndEvaluate sample_math True ''a b'' = Some (Inr Undefined)"
proof -
  have "\<forall>n < length ''a b''. match_at (drop n ''a b'') = None"
    by (simp add: All_less_Suc tok_eval)
  from no_token_undefined [OF this, of sample_math True]
    no_token_undefined [of "[]" sample_math True]
  show ?thesis by simp
qed

section \<open>Arithmetic on \<open>NaN\<close>\<close>

lemma d_add_NaN: "d_add x NaN = NaN" "d_add NaN x = NaN"
  by (cases x; simp)+

lemma d_sub_NaN: "d_sub x NaN = NaN" "d_sub NaN x = NaN"
  by (cases x; simp add: d_sub_def)+

lemma d_mul_NaN: "d_mul x NaN = NaN" "d_mul NaN x = NaN"
  by (cases x; simp)+

lemma d_div_NaN: "d_div x NaN = NaN" "d_div NaN x = NaN"
  by (cases x; simp)+

lemma arithmetic_undefined:
  assumes "op \<in> {''+'', ''-'', ''*'', ''/''}"
  shows "applyOperator M isRadian (Str op) Undefined b = Some (Inr NaN)"
proof -
  from assms have "op = ''+'' \<or> op = ''-'' \<or> op = ''*'' \<or> op = ''/''"
    by simp
  then show ?thesis
    by (elim disjE) (simp_all add: d_add_NaN d_sub_NaN d_mul_NaN d_div_NaN)
qed

section \<open>Constants in the output queue\<close>

lemma set_call_closed:
  "call_closed out ops = (out', ops') \<Longrightarrow>
   set out' \<subseteq> set out \<union> Str ` set ops \<and> set ops' \<subseteq> set ops"
  by (cases ops) (auto split: if_splits)

lemma set_close_paren:
  assumes "close_paren out ops = (out', ops')"
  shows "set out' \<subseteq> set out \<union> Str ` set ops \<and> set ops' \<subseteq> set ops"
proof -
  have 1: "set (takeWhile (\<lambda>x. x \<noteq> ''('') ops) \<subseteq> set ops"
    by (auto dest: set_takeWhileD)
  have 2: "set (drop 1 (dropWhile (\<lambda>x. x \<noteq> ''('') ops)) \<subseteq> set ops"
    by (auto dest!: in_set_dropD set_dropWhileD)
  from set_call_closed [OF assms [unfolded close_paren_def]]
  have "set out' \<subseteq> set out \<union> Str ` set (takeWhile (\<lambda>x. x \<noteq> ''('') ops)
          \<union> Str ` set (drop 1 (dropWhile (\<lambda>x. x \<noteq> ''('') ops))"
    and 3: "set ops' \<subseteq> set (drop 1 (dropWhile (\<lambda>x. x \<noteq> ''('') ops))"
    by auto
  with 1 2 have "set out' \<subseteq> set out \<union> Str ` set ops"
    by blast
  with 2 3 show ?thesis by blast
qed

lemma set_push_operator:
  assumes "push_operator out ops t = (out', ops')"
  shows "set out' \<subseteq> set out \<union> Str ` set ops \<and> set ops' \<subseteq> insert t (set ops)"
proof -
  have 1: "set (takeWhile (binds t) ops) \<subseteq> set ops"
    by (auto dest: set_takeWhileD)
  have 2: "set (dropWhile (binds t) ops) \<subseteq> set ops"
    by (auto dest: set_dropWhileD)
  from assms have "out' = out @ map Str (takeWhile (binds t) ops)"
    and "ops' = t # dropWhile (binds t) ops"
    by (auto simp: push_operator_def)
  with 1 2 show ?thesis by auto
qed






section \<open>Unbalanced parentheses\<close>

text \<open>
  C7. The conversion has no error to raise: it returns a postfix sequence for every
  list of tokens. A right parenthesis that has no left parenthesis below it on the
  operator stack moves the whole stack to the output queue, leaves it empty, and the
  conversion goes on with the next token. So \<^verbatim>\<open>"1+2)*3"\<close> is converted like
  \<^verbatim>\<open>"(1+2)*3"\<close>, and in \<^verbatim>\<open>"(1+2"\<close> the parenthesis that is never closed ends in the
  postfix sequence.
\<close>

theorem stray_right_paren:
  assumes "''('' \<notin> set ops"
  shows "shunt (out, ops) '')'' = (out @ map Str ops, [])
    \<and> foldl shunt (out, ops) ('')'' # rest) = foldl shunt (out @ map Str ops, []) rest
    \<and> to_postfix (tokenize ''1+2)*3'') = [Str ''1'', Str ''2'', Str ''+'', Str ''3'', Str ''*'']
    \<and> to_postfix (tokenize ''(1+2'') = [Str ''1'', Str ''2'', Str ''+'', Str ''('']"
proof -
  from assms have tw: "takeWhile (\<lambda>x. x \<noteq> ''('') ops = ops"
    and dw: "dropWhile (\<lambda>x. x \<noteq> ''('') ops = []"
    by (auto simp: takeWhile_eq_all_conv)
  have 1: "shunt (out, ops) '')'' = (out @ map Str ops, [])"
    by (simp add: close_paren_def is_number_token_def match_number_def is_digit_def
        pi_token_def function_names_def tw dw)
  have 2: "foldl shunt (out, ops) ('')'' # rest) = foldl shunt (out @ map Str ops, []) rest"
    by (simp add: 1 del: shunt.simps)
  have 3: "to_postfix (tokenize ''1+2)*3'')
      = [Str ''1'', Str ''2'', Str ''+'', Str ''3'', Str ''*'']"
    by (simp add: shunt_eval tok_eval)
  have 4: "to_postfix (tokenize ''(1+2'') = [Str ''1'', Str ''2'', Str ''+'', Str ''('']"
    by (simp add: shunt_eval tok_eval)
  from 1 2 3 4 show ?thesis by blast
qed

theorem stray_right_paren_witness:
  "shunt ([Str ''1'', Str ''2''], [''+'']) '')'' = ([Str ''1'', Str ''2'', Str ''+''], [])"
proof -
  have "''('' \<notin> set [''+'']" by simp
  from stray_right_paren [OF this, of "[Str ''1'', Str ''2'']" "[]"]
  show ?thesis by simp
qed

section \<open>The angle mode\<close>

text \<open>
  C6 does not hold as it is stated: in degree mode the argument is not multiplied by
  the factor \<open>\<pi>/180\<close>. The source multiplies by \<^verbatim>\<open>Math.PI\<close> first and divides by
  \<open>180\<close> afterwards, and each step is rounded. At \<open>a = 3\<close> the two ways differ in the
  last bit. At \<open>a = 2\<^sup>1\<^sup>0\<^sup>2\<^sup>3\<close> the product \<^verbatim>\<open>a * Math.PI\<close> overflows, so that the
  sine is called on \<open>Infinity\<close>, where \<open>a\<close> times the factor is finite, as is the
  exact quotient of \<open>a \<sqdot> Math.PI\<close> by \<open>180\<close> rounded once. The same holds of the
  results of the inverse functions, as at \<open>11\<close>. (The engines below return their
  argument, to show it.)
\<close>

theorem angle_factor_counterexample:
  "angle False (D 3) = Finite False 7545853602163669 (- 57)
   \<and> angle_by_factor False (D 3) = Finite False 3772926801081835 (- 56)
   \<and> applyOperator (sample_math\<lparr>Math_sin := (\<lambda>x. x)\<rparr>) False (Str ''sin'') (Number (D 3)) Undefined
     \<noteq> Some (Inr (Math_sin (sample_math\<lparr>Math_sin := (\<lambda>x. x)\<rparr>) (angle_by_factor False (D 3))))
   \<and> angle False (Finite False 1 1023) = Infinity False
   \<and> angle_by_factor False (Finite False 1 1023) = Finite False 5030569068109113 965
   \<and> round_ratio False 884279719003555 180 975
     = Finite False 5030569068109113 965
   \<and> applyOperator (sample_math\<lparr>Math_sin := (\<lambda>x. x)\<rparr>) False (Str ''sin'')
       (Number (Finite False 1 1023)) Undefined
     = Some (Inr (Infinity False))
   \<and> invAngle False (D 11) = Finite False 5543769070146907 (- 43)
   \<and> invAngle_by_factor False (D 11) = Finite False 2771884535073453 (- 42)
   \<and> applyOperator (sample_math\<lparr>Math_asin := (\<lambda>x. x)\<rparr>) False (Str ''asin'') (Number (D 11)) Undefined
     \<noteq> Some (Inr (invAngle_by_factor False (Math_asin (sample_math\<lparr>Math_asin := (\<lambda>x. x)\<rparr>) (D 11))))"
proof -
  have a: "angle False (D 3) = Finite False 7545853602163669 (- 57)"
    by (simp add: angle_def Math_PI_def dbl_eval)
  have b: "angle_by_factor False (D 3) = Finite False 3772926801081835 (- 56)"
    by (simp add: angle_by_factor_def Math_PI_def dbl_eval)
  have c: "angle False (Finite False 1 1023) = Infinity False"
    by (simp add: angle_def Math_PI_def dbl_eval)
  have d: "angle_by_factor False (Finite False 1 1023) = Finite False 5030569068109113 965"
    by (simp add: angle_by_factor_def Math_PI_def dbl_eval)
  have e: "round_ratio False 884279719003555 180 975
     = Finite False 5030569068109113 965"
    by (simp add: dbl_eval)
  have f: "invAngle False (D 11) = Finite False 5543769070146907 (- 43)"
    by (simp add: invAngle_def Math_PI_def dbl_eval)
  have g: "invAngle_by_factor False (D 11) = Finite False 2771884535073453 (- 42)"
    by (simp add: invAngle_by_factor_def Math_PI_def dbl_eval)
  show ?thesis
    by (simp add: a b c d e f g sample_math_def del: One_nat_def)
qed

text \<open>
  C6, amended. In degree mode (\<^verbatim>\<open>isRadian\<close> false) \<open>sin\<close>, \<open>cos\<close> and \<open>tan\<close> are the \<^verbatim>\<open>Math\<close>
  functions of \<^verbatim>\<open>a * Math.PI / 180\<close>, and \<open>asin\<close>, \<open>acos\<close> and \<open>atan\<close> are the \<^verbatim>\<open>Math\<close>
  functions of \<open>a\<close> itself, their result \<open>x\<close> returned as \<^verbatim>\<open>x * 180 / Math.PI\<close>; both
  expressions are computed from left to right in double arithmetic, the product
  rounded before it is divided, so that the function is called on an infinity
  whenever \<^verbatim>\<open>a * Math.PI\<close> overflows. In radian mode argument and result are passed
  through.
\<close>

theorem angle_mode_conversion:
  "applyOperator M False (Str ''sin'') (Number a) b
     = Some (Inr (Math_sin M (d_div (d_mul a Math_PI) (D 180))))
   \<and> applyOperator M False (Str ''cos'') (Number a) b
     = Some (Inr (Math_cos M (d_div (d_mul a Math_PI) (D 180))))
   \<and> applyOperator M False (Str ''tan'') (Number a) b
     = Some (Inr (Math_tan M (d_div (d_mul a Math_PI) (D 180))))
   \<and> applyOperator M False (Str ''asin'') (Number a) b
     = Some (Inr (d_div (d_mul (Math_asin M a) (D 180)) Math_PI))
   \<and> applyOperator M False (Str ''acos'') (Number a) b
     = Some (Inr (d_div (d_mul (Math_acos M a) (D 180)) Math_PI))
   \<and> applyOperator M False (Str ''atan'') (Number a) b
     = Some (Inr (d_div (d_mul (Math_atan M a) (D 180)) Math_PI))
   \<and> applyOperator M True (Str ''sin'') (Number a) b = Some (Inr (Math_sin M a))
   \<and> applyOperator M True (Str ''cos'') (Number a) b = Some (Inr (Math_cos M a))
   \<and> applyOperator M True (Str ''tan'') (Number a) b = Some (Inr (Math_tan M a))
   \<and> applyOperator M True (Str ''asin'') (Number a) b = Some (Inr (Math_asin M a))
   \<and> applyOperator M True (Str ''acos'') (Number a) b = Some (Inr (Math_acos M a))
   \<and> applyOperator M True (Str ''atan'') (Number a) b = Some (Inr (Math_atan M a))
   \<and> (d_mul a Math_PI = Infinity s \<longrightarrow>
        applyOperator M False (Str ''sin'') (Number a) b = Some (Inr (Math_sin M (Infinity s)))
        \<and> applyOperator M False (Str ''cos'') (Number a) b = Some (Inr (Math_cos M (Infinity s)))
        \<and> applyOperator M False (Str ''tan'') (Number a) b = Some (Inr (Math_tan M (Infinity s))))"
proof -
  have "d_div (Infinity s) (D 180) = Infinity s"
    by (simp add: dbl_eval)
  then show ?thesis
    by (simp add: angle_def invAngle_def)
qed

theorem angle_mode_conversion_witness:
  "applyOperator (sample_math\<lparr>Math_sin := (\<lambda>x. x)\<rparr>) False (Str ''sin'') (Number (D 180)) Undefined
     = Some (Inr Math_PI)
   \<and> applyOperator (sample_math\<lparr>Math_sin := (\<lambda>x. x)\<rparr>) True (Str ''sin'') (Number (D 180)) Undefined
     = Some (Inr (D 180))
   \<and> applyOperator (sample_math\<lparr>Math_cos := (\<lambda>x. x)\<rparr>) False (Str ''cos'')
       (Number (Finite False 1 1023)) Undefined
     = Some (Inr (Infinity False))"
proof -
  have "d_div (d_mul (D 180) Math_PI) (D 180) = Math_PI"
    by (simp add: dbl_eval Math_PI_def)
  then have 1: "applyOperator (sample_math\<lparr>Math_sin := (\<lambda>x. x)\<rparr>) False (Str ''sin'')
      (Number (D 180)) Undefined = Some (Inr Math_PI)
    \<and> applyOperator (sample_math\<lparr>Math_sin := (\<lambda>x. x)\<rparr>) True (Str ''sin'')
      (Number (D 180)) Undefined = Some (Inr (D 180))"
    using angle_mode_conversion [of "sample_math\<lparr>Math_sin := (\<lambda>x. x)\<rparr>" "D 180" Undefined]
    by (simp add: sample_math_def)
  have "d_mul (Finite False 1 1023) Math_PI = Infinity False"
    by (simp add: dbl_eval Math_PI_def)
  then have 2: "applyOperator (sample_math\<lparr>Math_cos := (\<lambda>x. x)\<rparr>) False (Str ''cos'')
       (Number (Finite False 1 1023)) Undefined = Some (Inr (Infinity False))"
    using angle_mode_conversion [of "sample_math\<lparr>Math_cos := (\<lambda>x. x)\<rparr>" "Finite False 1 1023"
        Undefined False]
    by (simp add: sample_math_def dbl_eval)
  from 1 2 show ?thesis by blast
qed

section \<open>Whole numbers below \<open>2\<^sup>5\<^sup>3\<close> are exact\<close>

lemma bit_length_bound: "n < 2 ^ k \<Longrightarrow> bit_length n \<le> k"
proof (induction k arbitrary: n)
  case 0
  then show ?case by (simp add: bit_length.simps)
next
  case (Suc k)
  show ?case
  proof (cases "n = 0")
    case True
    then show ?thesis by (simp add: bit_length.simps)
  next
    case False
    from Suc.prems have "n div 2 < 2 ^ k" by simp
    then have "bit_length (n div 2) \<le> k" by (rule Suc.IH)
    with False show ?thesis by (subst bit_length.simps) simp
  qed
qed

lemma norm_value:
  "0 < m \<Longrightarrow> norm m e = (m', e') \<Longrightarrow> e \<le> e' \<and> m' * 2 ^ nat (e' - e) = m"
proof (induction m e rule: norm.induct)
  case (1 m e)
  show ?case
  proof (cases "even m")
    case True
    with "1.prems" have n: "norm (m div 2) (e + 1) = (m', e')"
      by (subst (asm) norm.simps) simp
    from True "1.prems" have "0 < m div 2" by (auto elim: evenE)
    with "1.IH" True "1.prems" n
    have ih: "e + 1 \<le> e' \<and> m' * 2 ^ nat (e' - (e + 1)) = m div 2"
      by simp
    then have "nat (e' - e) = Suc (nat (e' - (e + 1)))" by linarith
    with ih True show ?thesis by (auto elim: evenE)
  next
    case False
    with "1.prems" show ?thesis
      by (subst (asm) norm.simps) simp
  qed
qed

lemma norm_fst_zero: "fst (norm m e) = 0 \<longleftrightarrow> m = 0"
proof (induction m e rule: norm.induct)
  case (1 m e)
  show ?case
  proof (cases "m = 0")
    case True
    then show ?thesis by (simp add: norm.simps)
  next
    case False
    show ?thesis
    proof (cases "even m")
      case True
      with False have "m div 2 \<noteq> 0" by (auto elim: evenE)
      with "1.IH" False True show ?thesis
        by (subst norm.simps) simp
    next
      case False
      then show ?thesis by (subst norm.simps) auto
    qed
  qed
qed

lemma D_exact:
  assumes "j \<le> 9007199254740992"
  shows "\<exists>m e. D j = Finite False m e \<and> 0 \<le> e \<and> m * 2 ^ nat e = j"
proof (cases "j = 9007199254740992")
  case True
  have "D 9007199254740992 = Finite False 1 53"
    by (simp add: dbl_eval)
  with True show ?thesis by simp
next
  case False
  with assms have "j < 2 ^ 53" by simp
  then have b: "bit_length j \<le> 53" by (rule bit_length_bound)
  then have x: "excess_bits j 0 = 0" by (simp add: excess_bits_def)
  have D: "D j = mk_finite False (norm j 0)"
    using b by (simp add: D_def round_dyadic_def x round_shift_def half_even_def finish_def)
  show ?thesis
  proof (cases "j = 0")
    case True
    have "D 0 = Finite False 0 0" by (simp add: dbl_eval)
    with True show ?thesis by simp
  next
    case False
    obtain m e where n: "norm j 0 = (m, e)" by (cases "norm j 0")
    from False norm_value [OF _ n] have "0 \<le> e \<and> m * 2 ^ nat e = j" by simp
    with D n show ?thesis by simp
  qed
qed

lemma aligned_scale:
  assumes "0 \<le> e" and "0 \<le> f"
  shows "aligned m e f * 2 ^ nat (min e f) = m * 2 ^ nat e"
proof -
  from assms have "nat (e - min e f) + nat (min e f) = nat e" by linarith
  then have "(2::nat) ^ nat (e - min e f) * 2 ^ nat (min e f) = 2 ^ nat e"
    by (simp flip: power_add)
  then show ?thesis by (simp add: aligned_def mult.assoc)
qed

lemma D_compare:
  assumes "i \<le> 9007199254740992" and "j \<le> 9007199254740992"
  shows "d_lt (D i) (D j) = (i < j)" and "d_eq (D i) (D j) = (i = j)"
    and "d_le (D i) (D j) = (i \<le> j)"
proof -
  from D_exact [OF assms(1)] obtain m e
    where i: "D i = Finite False m e" "0 \<le> e" "m * 2 ^ nat e = i" by blast
  from D_exact [OF assms(2)] obtain n f
    where j: "D j = Finite False n f" "0 \<le> f" "n * 2 ^ nat f = j" by blast
  have a: "aligned m e f * 2 ^ nat (min e f) = i"
    using aligned_scale [OF i(2) j(2)] i(3) by simp
  have b: "aligned n f e * 2 ^ nat (min e f) = j"
    using aligned_scale [OF j(2) i(2)] j(3) by (simp add: min.commute)
  have "(aligned m e f < aligned n f e) = (i < j)"
    unfolding a [symmetric] b [symmetric] by simp
  then show lt: "d_lt (D i) (D j) = (i < j)"
    by (simp add: i(1) j(1) signed_def)
  have "(aligned m e f = aligned n f e) = (i = j)"
    unfolding a [symmetric] b [symmetric] by simp
  then show eq: "d_eq (D i) (D j) = (i = j)"
    by (simp add: i(1) j(1) signed_def)
  from lt eq show "d_le (D i) (D j) = (i \<le> j)"
    by (auto simp: d_le_def)
qed

lemma D_add_one:
  assumes "j \<le> 9007199254740992"
  shows "d_add (D j) (D 1) = D (Suc j)"
proof -
  from D_exact [OF assms] obtain m e
    where j: "D j = Finite False m e" "0 \<le> e" "m * 2 ^ nat e = j" by blast
  have one: "D 1 = Finite False 1 0" by (simp add: dbl_eval)
  from j(2) have al: "aligned m e 0 = j" "aligned 1 0 e = 1"
    using j(3) by (simp_all add: aligned_def)
  have "d_add (D j) (D 1) = d_add (Finite False m e) (Finite False 1 0)"
    by (simp only: j(1) one)
  also have "\<dots> = round_sum (int j + 1) 0 False"
    using j(2) by (simp add: al signed_def del: One_nat_def)
  also have "\<dots> = round_dyadic False (Suc j) 0"
    by (simp add: round_sum_def nat_add_distrib)
  finally show ?thesis by (simp only: D_def)
qed

lemma D_whole:
  assumes "j \<le> 9007199254740992"
  shows "d_lt (D j) (D 0) = False" and "d_eq (d_mod (D j) (D 1)) (D 0) = True"
proof -
  from D_compare(1) [OF assms, of 0] show "d_lt (D j) (D 0) = False" by simp
  from D_exact [OF assms] obtain m e
    where j: "D j = Finite False m e" "0 \<le> e" "m * 2 ^ nat e = j" by blast
  have one: "D 1 = Finite False 1 0" and zero: "D 0 = Finite False 0 0"
    by (simp_all add: dbl_eval)
  from j(2) have al: "aligned 1 0 e = 1" by (simp add: aligned_def)
  have "d_mod (D j) (D 1) = d_mod (Finite False m e) (Finite False 1 0)"
    by (simp only: j(1) one)
  also have "\<dots> = Finite False 0 0"
    by (simp add: al norm.simps del: One_nat_def)
  finally show "d_eq (d_mod (D j) (D 1)) (D 0) = True"
    by (simp add: zero)
qed

section \<open>The loop of \<^verbatim>\<open>factorial\<close>\<close>

lemma factorial_loop_product:
  "k < 9007199254740992 \<Longrightarrow> j \<le> Suc k \<Longrightarrow>
   factorial_loop (D k) (D j) r = Some (foldl d_mul r (map D [j..<Suc k]))"
proof (induction "Suc k - j" arbitrary: j r)
  case 0
  then have "j = Suc k" by simp
  with "0.prems" have "d_le (D j) (D k) = False"
    by (simp add: D_compare(3))
  with \<open>j = Suc k\<close> show ?case
    by (subst factorial_loop.simps) simp
next
  case (Suc d)
  then have jk: "j \<le> k" by simp
  with Suc.prems have le: "d_le (D j) (D k) = True"
    by (simp add: D_compare(3))
  from jk Suc.prems have add: "d_add (D j) (D 1) = D (Suc j)"
    by (intro D_add_one) simp
  from Suc.hyps(2) have d: "d = Suc k - Suc j" by simp
  from jk have sj: "Suc j \<le> Suc k" by simp
  have upt: "[j..<Suc k] = j # [Suc j..<Suc k]"
    using sj by (simp only: upt_conv_Cons less_Suc_eq_le Suc_le_mono)
  have "factorial_loop (D k) (D j) r
        = factorial_loop (D k) (d_add (D j) (D 1)) (d_mul r (D j))"
    by (subst factorial_loop.simps) (simp only: le if_True)
  also have "\<dots> = Some (foldl d_mul (d_mul r (D j)) (map D [Suc j..<Suc k]))"
    unfolding add by (rule Suc.hyps(1) [OF d Suc.prems(1) sj])
  also have "\<dots> = Some (foldl d_mul r (map D [j..<Suc k]))"
    by (simp only: upt list.map foldl_Cons)
  finally show ?case .
qed

lemma factorial_loop_stuck:
  assumes "factorial_loop n i r = Some y"
  shows "\<not> (n = D 9007199254740992 \<and> (\<exists>j \<le> 9007199254740992. i = D j))"
proof (rule factorial_loop.raw_induct
    [where P = "\<lambda>n i r y. \<not> (n = D 9007199254740992 \<and> (\<exists>j \<le> 9007199254740992. i = D j))",
      OF _ assms])
  fix loop :: "double \<Rightarrow> double \<Rightarrow> double \<Rightarrow> double option" and n i r y
  assume IH: "\<And>n i r y. loop n i r = Some y \<Longrightarrow>
      \<not> (n = D 9007199254740992 \<and> (\<exists>j \<le> 9007199254740992. i = D j))"
    and step: "(if d_le i n then loop n (d_add i (D 1)) (d_mul r i) else Some r) = Some y"
  show "\<not> (n = D 9007199254740992 \<and> (\<exists>j \<le> 9007199254740992. i = D j))"
  proof
    assume a: "n = D 9007199254740992 \<and> (\<exists>j \<le> 9007199254740992. i = D j)"
    then obtain j where j: "j \<le> 9007199254740992" "i = D j" by blast
    from a j have le: "d_le i n"
      by (simp add: D_compare(3))
    from j have next_i: "d_add i (D 1) = D (Suc j)"
      by (simp only: D_add_one)
    have "\<exists>j' \<le> 9007199254740992. d_add i (D 1) = D j'"
    proof (cases "j = 9007199254740992")
      case True
      have "D (Suc 9007199254740992) = D 9007199254740992"
        by (simp add: dbl_eval)
      with True next_i show ?thesis by auto
    next
      case False
      with j(1) have "Suc j \<le> 9007199254740992" by simp
      with next_i show ?thesis by blast
    qed
    moreover from step le have "loop n (d_add i (D 1)) (d_mul r i) = Some y"
      by (simp only: if_True)
    ultimately show False
      using IH a by blast
  qed
qed

lemma factorial_guard:
  "(d_lt x (D 0) \<or> \<not> d_eq (d_mod x (D 1)) (D 0))
   \<longleftrightarrow> (x = NaN \<or> x = Infinity False \<or> is_negative x \<or> has_fraction x)"
proof (cases x)
  case NaN
  then show ?thesis by simp
next
  case (Infinity s)
  then show ?thesis by (simp add: dbl_eval)
next
  case (Finite s m e)
  have one: "D 1 = Finite False 1 0" and zero: "D 0 = Finite False 0 0"
    by (simp_all add: dbl_eval)
  have lt: "d_lt x (D 0) = is_negative x"
    by (auto simp: Finite zero signed_def aligned_def zero_less_mult_iff mult_less_0_iff)
  obtain a b where n: "norm (aligned m e 0 mod aligned 1 0 e) (min e 0) = (a, b)"
    by (cases "norm (aligned m e 0 mod aligned 1 0 e) (min e 0)")
  from norm_fst_zero [of "aligned m e 0 mod aligned 1 0 e" "min e 0"] n
  have a: "a = 0 \<longleftrightarrow> aligned m e 0 mod aligned 1 0 e = 0" by simp
  have "d_eq (d_mod x (D 1)) (D 0)
        = d_eq (d_mod (Finite s m e) (Finite False 1 0)) (Finite False 0 0)"
    by (simp only: Finite one zero)
  also have "\<dots> = d_eq (Finite s a b) (Finite False 0 0)"
    by (simp add: n del: One_nat_def)
  also have "\<dots> = (a = 0)"
    by (simp add: signed_def aligned_def)
  finally have eq: "d_eq (d_mod x (D 1)) (D 0) = (aligned m e 0 mod aligned 1 0 e = 0)"
    by (simp only: a)
  have "(aligned m e 0 mod aligned 1 0 e \<noteq> 0) = has_fraction x"
  proof (cases "e < 0")
    case True
    then have "aligned m e 0 = m" "aligned 1 0 e = 2 ^ nat (- e)"
      by (simp_all add: aligned_def)
    with True show ?thesis by (simp add: Finite mod_eq_0_iff_dvd)
  next
    case False
    then have "aligned 1 0 e = 1" by (simp add: aligned_def)
    with False show ?thesis by (simp add: Finite)
  qed
  with lt eq show ?thesis by (simp add: Finite)
qed

text \<open>
  C5 does not hold as it is stated. An infinite argument is neither negative nor
  fractional and is refused all the same; and the loop counts in doubles, where
  \<open>2\<^sup>5\<^sup>3 + 1\<close> is \<open>2\<^sup>5\<^sup>3\<close> again, so that the call with the whole number \<open>2\<^sup>5\<^sup>3\<close> does not
  return.
\<close>

theorem factorial_counterexample:
  "factorial (Number (Infinity False)) = Some (Inl InvalidFactorial)
   \<and> \<not> is_negative (Infinity False) \<and> \<not> has_fraction (Infinity False)
   \<and> \<not> is_negative (D 9007199254740992) \<and> \<not> has_fraction (D 9007199254740992)
   \<and> factorial (Number (D 9007199254740992)) = None"
proof -
  have "factorial_loop (D 9007199254740992) (D 2) (D 1) = None"
  proof (cases "factorial_loop (D 9007199254740992) (D 2) (D 1)")
    case (Some y)
    have "\<exists>j \<le> 9007199254740992. D 2 = D j"
      by (intro exI [of _ 2]) simp
    with factorial_loop_stuck [OF Some] show ?thesis by blast
  qed simp
  moreover have "d_eq (D 9007199254740992) (D 0) = False"
    by (simp add: D_compare(2))
  ultimately have "factorial (Number (D 9007199254740992)) = None"
    by (simp add: factorial_def D_whole del: One_nat_def)
  moreover have "D 9007199254740992 = Finite False 1 53"
    by (simp add: dbl_eval)
  moreover have "factorial (Number (Infinity False)) = Some (Inl InvalidFactorial)"
    by (simp add: factorial_def dbl_eval)
  ultimately show ?thesis by simp
qed

text \<open>
  C5, amended. \<open>fact\<close> raises \<open>Invalid factorial\<close> exactly when its argument is
  negative, has a fractional part, is \<open>NaN\<close> (as \<^verbatim>\<open>undefined\<close> is, once converted) or is
  infinite. For every whole number \<open>k\<close> below \<open>2\<^sup>5\<^sup>3\<close> it returns the iterative product
  from \<open>2\<close> up to \<open>k\<close>, each product rounded to a double; \<open>fact(0)\<close> is \<open>1\<close> and
  \<open>fact(5)\<close> is \<open>120\<close>, and \<open>fact(-1)\<close> and \<open>fact(2.5)\<close> are refused.
\<close>

theorem factorial_spec:
  "(factorial x = Some (Inl InvalidFactorial)
     \<longleftrightarrow> (to_number x = NaN \<or> to_number x = Infinity False
          \<or> is_negative (to_number x) \<or> has_fraction (to_number x)))
   \<and> (k < 9007199254740992 \<longrightarrow> factorial (Number (D k)) = Some (Inr (product_upto k)))
   \<and> factorial (Number (D 0)) = Some (Inr (D 1))
   \<and> factorial (Number (D 5)) = Some (Inr (D 120))
   \<and> factorial (Number (d_neg (D 1))) = Some (Inl InvalidFactorial)
   \<and> factorial (Number (number_value ''2.5'')) = Some (Inl InvalidFactorial)
   \<and> parseAndEvaluate M isRadian ''fact(0)'' = Some (Inr (Number (D 1)))
   \<and> parseAndEvaluate M isRadian ''fact(5)'' = Some (Inr (Number (D 120)))
   \<and> parseAndEvaluate M isRadian ''fact(-1)'' = Some (Inl InvalidFactorial)
   \<and> parseAndEvaluate M isRadian ''fact(2.5)'' = Some (Inl InvalidFactorial)"
proof (intro conjI impI)
  show "factorial x = Some (Inl InvalidFactorial)
     \<longleftrightarrow> (to_number x = NaN \<or> to_number x = Infinity False
          \<or> is_negative (to_number x) \<or> has_fraction (to_number x))"
    using factorial_guard [of "to_number x"]
    by (auto simp: factorial_def)
next
  assume k: "k < 9007199254740992"
  show "factorial (Number (D k)) = Some (Inr (product_upto k))"
  proof (cases "k = 0")
    case True
    then show ?thesis
      by (simp add: factorial_def D_whole D_compare(2) product_upto_def del: One_nat_def)
  next
    case False
    with k have "factorial (Number (D k)) = map_option Inr (factorial_loop (D k) (D 2) (D 1))"
      by (simp add: factorial_def D_whole D_compare(2) del: One_nat_def)
    also from False have "2 \<le> Suc k" by simp
    with k have "factorial_loop (D k) (D 2) (D 1) = Some (foldl d_mul (D 1) (map D [2..<Suc k]))"
      by (rule factorial_loop_product)
    finally show ?thesis by (simp add: product_upto_def)
  qed
next
  show "factorial (Number (D 0)) = Some (Inr (D 1))"
    by (simp add: factorial_def dbl_eval norm.simps)
  show "factorial (Number (D 5)) = Some (Inr (D 120))"
    by (simp add: factorial_def factorial_loop.simps dbl_eval)
  show "factorial (Number (d_neg (D 1))) = Some (Inl InvalidFactorial)"
    by (simp add: factorial_def dbl_eval)
  show "factorial (Number (number_value ''2.5'')) = Some (Inl InvalidFactorial)"
    by (simp add: factorial_def run_eval is_digit_def dbl_eval)
  show "parseAndEvaluate M isRadian ''fact(0)'' = Some (Inr (Number (D 1)))"
    by (simp add: all_eval factorial_def)
  show "parseAndEvaluate M isRadian ''fact(5)'' = Some (Inr (Number (D 120)))"
    by (simp add: all_eval factorial_def factorial_loop.simps)
  show "parseAndEvaluate M isRadian ''fact(-1)'' = Some (Inl InvalidFactorial)"
    by (simp add: all_eval factorial_def)
  show "parseAndEvaluate M isRadian ''fact(2.5)'' = Some (Inl InvalidFactorial)"
    by (simp add: all_eval factorial_def)
qed

theorem factorial_spec_witness:
  "factorial (Number (D 6)) = Some (Inr (D 720))
   \<and> factorial Undefined = Some (Inl InvalidFactorial)
   \<and> factorial (Number (Finite False 5 (- 1))) = Some (Inl InvalidFactorial)"
proof -
  have "product_upto 6 = D 720"
    by (simp add: product_upto_def upt_conv_Cons dbl_eval del: One_nat_def)
  moreover have "(6::nat) < 9007199254740992"
    by simp
  moreover have "has_fraction (to_number (Number (Finite False 5 (- 1))))"
    by simp
  ultimately show ?thesis
    using factorial_spec [of Undefined 6 sample_math True]
      factorial_spec [of "Number (Finite False 5 (- 1))" 6 sample_math True]
    by simp
qed

section \<open>Well-formed sequences\<close>

subsection \<open>The classes of tokens\<close>

lemma function_plain:
  assumes "t \<in> set function_names"
  shows "\<not> is_number_token t" "t \<noteq> pi_token" "t \<noteq> ''e''" "t \<noteq> ''i''" "t \<noteq> ''(''"
    "t \<noteq> '')''" "\<not> is_operator t" "\<not> is_operand t"
proof -
  from assms number_token_plain(6) [of t] show n: "\<not> is_number_token t" by blast
  from assms have "t = ''sin'' \<or> t = ''cos'' \<or> t = ''tan'' \<or> t = ''asin'' \<or> t = ''acos''
    \<or> t = ''atan'' \<or> t = ''log'' \<or> t = ''ln'' \<or> t = ''sqrt'' \<or> t = ''fact''"
    by (simp add: function_names_def)
  then show p: "t \<noteq> pi_token" "t \<noteq> ''e''" "t \<noteq> ''i''" "t \<noteq> ''(''" "t \<noteq> '')''"
    "\<not> is_operator t"
    by (elim disjE; simp add: pi_token_def is_operator_def precedence_def)+
  from n p show "\<not> is_operand t" by (simp add: is_operand_def)
qed

lemma operator_class:
  assumes "is_operator t"
  shows "\<not> is_number_token t" "t \<noteq> pi_token" "t \<noteq> ''e''" "t \<noteq> ''i''" "t \<noteq> ''(''"
    "t \<noteq> '')''" "t \<notin> set function_names" "\<not> is_operand t"
proof -
  from assms obtain p where p: "precedence t = Some p"
    by (auto simp: is_operator_def)
  from operator_plain [OF p]
  show "\<not> is_number_token t" "t \<noteq> pi_token" "t \<noteq> ''e''" "t \<noteq> ''i''" "t \<noteq> ''(''"
    "t \<noteq> '')''" "t \<notin> set function_names" .
  then show "\<not> is_operand t" by (simp add: is_operand_def)
qed

lemma paren_class:
  "\<not> is_number_token ''(''" "\<not> is_operator ''(''" "''('' \<notin> set function_names"
  "\<not> is_operand ''(''" "\<not> is_number_token '')''" "\<not> is_operator '')''"
  "'')'' \<notin> set function_names" "\<not> is_operand '')''"
  by (simp_all add: is_operand_def is_operator_def shunt_eval tok_eval)

lemma shunt_operand: "is_operand t \<Longrightarrow> shunt (out, ops) t = (out @ [resolve t], ops)"
  by (simp add: is_operand_def)

lemma shunt_function: "t \<in> set function_names \<Longrightarrow> shunt (out, ops) t = (out, t # ops)"
  using function_plain [of t] by simp

lemma shunt_open: "shunt (out, ops) ''('' = (out, ''('' # ops)"
  using paren_class by (simp add: pi_token_def)

lemma shunt_close: "shunt (out, ops) '')'' = close_paren out ops"
  using paren_class by (simp add: pi_token_def)

lemma shunt_binary:
  "is_operator t \<Longrightarrow>
   shunt (out, ops) t = (out @ map Str (takeWhile (binds t) ops), t # dropWhile (binds t) ops)"
proof -
  assume "is_operator t"
  then obtain p where "precedence t = Some p"
    by (auto simp: is_operator_def)
  then show ?thesis by (rule shunt_operator)
qed

lemma item_class:
  "is_operator x \<Longrightarrow> isNaN_item (Str x) \<and> arity (Str x) = 2 \<and> known (Str x)"
  "x \<in> set function_names \<Longrightarrow> isNaN_item (Str x) \<and> arity (Str x) = 1 \<and> known (Str x)"
  using operator_class [of x] function_plain [of x] by auto

lemma resolve_class:
  assumes "is_operand t" and "t \<noteq> ''i''"
  shows "\<not> isNaN_item (resolve t)" and "known (resolve t)"
  using assms by (auto simp: is_operand_def resolve_def Math_PI_def Math_E_def)

subsection \<open>The height of the stack\<close>

lemma height_append:
  "height h (p @ q) = (case height h p of None \<Rightarrow> None | Some h' \<Rightarrow> height h' q)"
  by (induction p arbitrary: h) auto

lemma binops_simps:
  "binops [] = 0"
  "binops (x # xs) = (if is_operator x then Suc (binops xs) else binops xs)"
  "binops (xs @ ys) = binops xs + binops ys"
  by (simp_all add: binops_def)

lemma parens_simps:
  "parens [] = 0"
  "parens (x # xs) = (if x = ''('' then Suc (parens xs) else parens xs)"
  "parens (xs @ ys) = parens xs + parens ys"
  by (simp_all add: parens_def)

lemma parens_none: "''('' \<notin> set xs \<Longrightarrow> parens xs = 0"
  by (induction xs) (auto simp: parens_simps)

lemma parens_some: "0 < parens xs \<Longrightarrow> ''('' \<in> set xs"
  using parens_none [of xs] by auto

lemma parens_zero: "parens xs = 0 \<Longrightarrow> ''('' \<notin> set xs"
  by (induction xs) (auto simp: parens_simps split: if_splits)

lemma height_pop:
  "(\<forall>x \<in> set xs. is_operator x \<or> x \<in> set function_names) \<Longrightarrow> binops xs < h \<Longrightarrow>
   height h (map Str xs) = Some (h - binops xs)"
proof (induction xs arbitrary: h)
  case Nil
  then show ?case by (simp add: binops_simps)
next
  case (Cons x xs)
  from Cons.prems(1) have all: "\<forall>x \<in> set xs. is_operator x \<or> x \<in> set function_names"
    by simp
  show ?case
  proof (cases "is_operator x")
    case True
    with Cons.prems(2) have h: "binops xs < h - 1" "2 \<le> h"
      by (simp_all add: binops_simps)
    then have s: "Suc (h - 2) = h - 1" "h - 1 - binops xs = h - Suc (binops xs)"
      by simp_all
    from item_class(1) [OF True] h(2)
    have "height h (map Str (x # xs)) = height (h - 1) (map Str xs)"
      by (simp add: s(1) del: isNaN_item.simps arity.simps)
    also have "\<dots> = Some (h - 1 - binops xs)"
      using all h(1) by (rule Cons.IH)
    finally show ?thesis
      using True by (simp add: binops_simps s(2))
  next
    case False
    with Cons.prems(1) have f: "x \<in> set function_names" by simp
    from False Cons.prems(2) have h: "binops xs < h" "1 \<le> h"
      by (simp_all add: binops_simps)
    from item_class(2) [OF f] h(2)
    have "height h (map Str (x # xs)) = height h (map Str xs)"
      by (simp del: isNaN_item.simps arity.simps)
    also have "\<dots> = Some (h - binops xs)"
      using all h(1) by (rule Cons.IH)
    finally show ?thesis
      using False by (simp add: binops_simps)
  qed
qed

subsection \<open>One token of a well-formed sequence\<close>

lemma inv_operand:
  assumes "shunt_inv True d out ops" and "is_operand t" and "t \<noteq> ''i''"
  shows "shunt_inv False d (out @ [resolve t]) ops"
  using assms resolve_class [OF assms(2,3)]
  by (simp add: shunt_inv_def height_append del: isNaN_item.simps known.simps)

lemma inv_function:
  assumes "shunt_inv True d out ops" and "t \<in> set function_names"
  shows "shunt_inv True d out (t # ops)"
  using assms function_plain(5,7) [OF assms(2)]
  by (simp add: shunt_inv_def binops_simps parens_simps)

lemma inv_open:
  assumes "shunt_inv True d out ops"
  shows "shunt_inv True (Suc d) out (''('' # ops)"
  using assms paren_class(2)
  by (simp add: shunt_inv_def binops_simps parens_simps)

lemma inv_operator:
  assumes inv: "shunt_inv False d out ops" and t: "is_operator t"
  shows "shunt_inv True d (out @ map Str (takeWhile (binds t) ops))
           (t # dropWhile (binds t) ops)"
proof -
  let ?p = "takeWhile (binds t) ops" and ?r = "dropWhile (binds t) ops"
  have pr: "?p @ ?r = ops" by simp
  have p_op: "\<forall>x \<in> set ?p. is_operator x"
  proof
    fix x assume "x \<in> set ?p"
    then have "binds t x" by (rule set_takeWhileD [THEN conjunct2])
    then show "is_operator x"
      by (cases "precedence x") (simp_all add: binds_def is_operator_def)
  qed
  then have p_class: "\<forall>x \<in> set ?p. is_operator x \<or> x \<in> set function_names"
    by blast
  from p_op operator_class(5) have "''('' \<notin> set ?p" by blast
  then have p_parens: "parens ?p = 0" by (rule parens_none)
  have b: "binops ops = binops ?p + binops ?r"
    using binops_simps(3) [of ?p ?r] by (simp only: pr)
  have c: "parens ops = parens ?p + parens ?r"
    using parens_simps(3) [of ?p ?r] by (simp only: pr)
  from inv have h: "height 0 out = Some (binops ops + 1)"
    and d: "parens ops = d"
    and ops: "\<forall>x \<in> set ops. is_operator x \<or> x \<in> set function_names \<or> x = ''(''"
    and out: "\<forall>t \<in> set out. known t"
    by (simp_all add: shunt_inv_def)
  have "binops ?p < binops ops + 1" using b by simp
  from height_pop [OF p_class this] b
  have "height (binops ops + 1) (map Str ?p) = Some (binops ?r + 1)" by simp
  with h have 1: "height 0 (out @ map Str ?p) = Some (binops (t # ?r) + 0)"
    using t by (simp add: height_append binops_simps)
  from t operator_class(5) [OF t] c d p_parens
  have 2: "parens (t # ?r) = d" by (simp add: parens_simps)
  have "set ?r \<subseteq> set ops" by (auto dest: set_dropWhileD)
  with ops t
  have 3: "\<forall>x \<in> set (t # ?r). is_operator x \<or> x \<in> set function_names \<or> x = ''(''"
    by auto
  from p_op item_class(1) have "\<forall>t \<in> set (map Str ?p). known t"
    by (auto simp del: known.simps)
  with out have 4: "\<forall>t \<in> set (out @ map Str ?p). known t" by auto
  from 1 2 3 4 show ?thesis
    unfolding shunt_inv_def by simp
qed

lemma inv_close:
  assumes inv: "shunt_inv False d out ops" and d: "0 < d"
    and step: "close_paren out ops = (out', ops')"
  shows "shunt_inv False (d - 1) out' ops'"
proof -
  let ?p = "takeWhile (\<lambda>x. x \<noteq> ''('') ops" and ?r = "dropWhile (\<lambda>x. x \<noteq> ''('') ops"
  from inv have h: "height 0 out = Some (binops ops + 1)"
    and pd: "parens ops = d"
    and ops: "\<forall>x \<in> set ops. is_operator x \<or> x \<in> set function_names \<or> x = ''(''"
    and out: "\<forall>t \<in> set out. known t"
    by (simp_all add: shunt_inv_def)
  have pr: "?p @ ?r = ops" by simp
  have "set ?p \<subseteq> set ops" by (auto dest: set_takeWhileD)
  moreover have no: "''('' \<notin> set ?p" by (auto dest: set_takeWhileD)
  ultimately have p_class: "\<forall>x \<in> set ?p. is_operator x \<or> x \<in> set function_names"
    using ops by blast
  from pd d have "''('' \<in> set ops" by (intro parens_some) simp
  then have "?r \<noteq> []" by auto
  then obtain r where r: "?r = ''('' # r"
    using hd_dropWhile [of "\<lambda>x. x \<noteq> ''(''" ops] by (cases ?r) auto
  have b: "binops ops = binops ?p + binops r"
    using binops_simps(3) [of ?p ?r] paren_class(2) by (simp only: pr) (simp add: r binops_simps)
  have c: "parens ops = Suc (parens r)"
    using parens_simps(3) [of ?p ?r] parens_none [OF no]
    by (simp only: pr) (simp add: r parens_simps)
  have "set ?r \<subseteq> set ops" by (auto dest: set_dropWhileD)
  with r ops have r_class: "\<forall>x \<in> set r. is_operator x \<or> x \<in> set function_names \<or> x = ''(''"
    by auto
  have "binops ?p < binops ops + 1" using b by simp
  from height_pop [OF p_class this] b
  have "height (binops ops + 1) (map Str ?p) = Some (binops r + 1)" by simp
  with h have h1: "height 0 (out @ map Str ?p) = Some (binops r + 1)"
    by (simp add: height_append)
  from p_class item_class have "\<forall>t \<in> set (map Str ?p). known t"
    by (auto simp del: known.simps)
  with out have k1: "\<forall>t \<in> set (out @ map Str ?p). known t" by auto
  from step r have cc: "call_closed (out @ map Str ?p) r = (out', ops')"
    by (simp add: close_paren_def)
  show ?thesis
  proof (cases r)
    case Nil
    with cc h1 k1 c pd show ?thesis
      by (auto simp: shunt_inv_def binops_simps parens_simps)
  next
    case (Cons f r')
    show ?thesis
    proof (cases "f \<in> set function_names")
      case True
      with cc Cons have o: "out' = (out @ map Str ?p) @ [Str f]" "ops' = r'" by auto
      from True function_plain(5,7) [OF True] Cons
      have br: "binops r = binops r'" "parens r = parens r'"
        by (simp_all add: binops_simps parens_simps)
      from h1 item_class(2) [OF True]
      have "height 0 ((out @ map Str ?p) @ [Str f]) = Some (binops r + 1)"
        by (subst height_append) (simp del: isNaN_item.simps)
      moreover from k1 item_class(2) [OF True]
      have "\<forall>t \<in> set ((out @ map Str ?p) @ [Str f]). known t"
        by (auto simp del: known.simps)
      moreover from r_class Cons
      have "\<forall>x \<in> set r'. is_operator x \<or> x \<in> set function_names \<or> x = ''(''" by simp
      ultimately show ?thesis
        using br c pd unfolding shunt_inv_def o by simp
    next
      case False
      with cc Cons have "out' = out @ map Str ?p" "ops' = r" by auto
      with h1 k1 r_class c pd show ?thesis
        unfolding shunt_inv_def by simp
    qed
  qed
qed

subsection \<open>The whole conversion\<close>

lemma shunt_well_formed:
  "well_formed_from b d ts \<Longrightarrow> ''i'' \<notin> set ts \<Longrightarrow> shunt_inv b d out ops \<Longrightarrow>
   \<exists>out' ops'. foldl shunt (out, ops) ts = (out', ops') \<and> shunt_inv False 0 out' ops'"
proof (induction ts arbitrary: b d out ops)
  case Nil
  then show ?case by simp
next
  case (Cons t ts)
  from Cons.prems(2) have ti: "t \<noteq> ''i''" and tsi: "''i'' \<notin> set ts" by auto
  show ?case
  proof (cases b)
    case True
    with Cons.prems have wf: "well_formed_from True d (t # ts)"
      and inv: "shunt_inv True d out ops" by simp_all
    consider (operand) "is_operand t" "well_formed_from False d ts"
      | (name) "t \<in> set function_names" "well_formed_from True d ts"
      | (paren) "t = ''(''" "well_formed_from True (Suc d) ts"
      using wf by (auto split: if_splits)
    then show ?thesis
    proof cases
      case operand
      from inv operand(1) ti have "shunt_inv False d (out @ [resolve t]) ops"
        by (rule inv_operand)
      from Cons.IH [OF operand(2) tsi this] show ?thesis
        by (simp add: shunt_operand [OF operand(1)] del: shunt.simps)
    next
      case name
      from inv name(1) have "shunt_inv True d out (t # ops)"
        by (rule inv_function)
      from Cons.IH [OF name(2) tsi this] show ?thesis
        by (simp add: shunt_function [OF name(1)] del: shunt.simps)
    next
      case paren
      from inv have "shunt_inv True (Suc d) out (''('' # ops)"
        by (rule inv_open)
      from Cons.IH [OF paren(2) tsi this] show ?thesis
        by (simp add: paren(1) shunt_open del: shunt.simps)
    qed
  next
    case False
    with Cons.prems have wf: "well_formed_from False d (t # ts)"
      and inv: "shunt_inv False d out ops" by simp_all
    consider (operator) "is_operator t" "well_formed_from True d ts"
      | (close) "t = '')''" "0 < d" "well_formed_from False (d - 1) ts"
      using wf by (auto split: if_splits)
    then show ?thesis
    proof cases
      case operator
      from inv operator(1)
      have "shunt_inv True d (out @ map Str (takeWhile (binds t) ops))
              (t # dropWhile (binds t) ops)"
        by (rule inv_operator)
      from Cons.IH [OF operator(2) tsi this] show ?thesis
        by (simp add: shunt_binary [OF operator(1)] del: shunt.simps)
    next
      case close
      obtain out1 ops1 where c: "close_paren out ops = (out1, ops1)"
        by (cases "close_paren out ops")
      from inv close(2) c have "shunt_inv False (d - 1) out1 ops1"
        by (rule inv_close)
      from Cons.IH [OF close(3) tsi this] show ?thesis
        by (simp add: close(1) shunt_close c del: shunt.simps)
    qed
  qed
qed

lemma postfix_height:
  assumes "well_formed ts" and "''i'' \<notin> set ts"
  shows "height 0 (to_postfix ts) = Some 1" and "\<forall>t \<in> set (to_postfix ts). known t"
proof -
  have "shunt_inv True 0 [] []"
    by (simp add: shunt_inv_def binops_simps parens_simps)
  from shunt_well_formed [OF assms(1) [unfolded well_formed_def] assms(2) this]
  obtain out ops where f: "foldl shunt ([], []) ts = (out, ops)"
    and inv: "shunt_inv False 0 out ops" by blast
  from inv have h: "height 0 out = Some (binops ops + 1)"
    and p: "parens ops = 0"
    and ops: "\<forall>x \<in> set ops. is_operator x \<or> x \<in> set function_names \<or> x = ''(''"
    and out: "\<forall>t \<in> set out. known t"
    by (simp_all add: shunt_inv_def)
  from p have "''('' \<notin> set ops"
    by (rule parens_zero)
  with ops have cls: "\<forall>x \<in> set ops. is_operator x \<or> x \<in> set function_names"
    by blast
  from height_pop [OF cls, of "binops ops + 1"] h
  show "height 0 (to_postfix ts) = Some 1"
    by (simp add: to_postfix_def f height_append)
  from cls item_class have "\<forall>t \<in> set (map Str ops). known t"
    by (auto simp del: known.simps)
  with out show "\<forall>t \<in> set (to_postfix ts). known t"
    by (auto simp: to_postfix_def f)
qed

subsection \<open>The evaluation of a postfix sequence of known height\<close>

lemma pop_rest: "snd (pop stack) = tl stack"
  by (cases stack) simp_all

lemma apply_token_shape:
  "apply_token M isRadian token stack
   = push_result
       (applyOperator M isRadian token
          (fst (pop (if is_function token then stack else tl stack))) (fst (pop stack)))
       (drop (arity token) stack)"
  by (simp add: apply_token_def pop_rest drop_Suc numeral_2_eq_2 drop_tl)

lemma eval_token_cases:
  assumes "isNaN_item token"
  obtains "eval_token M isRadian stack token = None"
  | err where "eval_token M isRadian stack token = Some (Inl err)"
  | v where "eval_token M isRadian stack token = Some (Inr (v # drop (arity token) stack))"
proof -
  let ?r = "applyOperator M isRadian token
      (fst (pop (if is_function token then stack else tl stack))) (fst (pop stack))"
  from assms have e: "eval_token M isRadian stack token
      = push_result ?r (drop (arity token) stack)"
    by (simp only: eval_token_def apply_token_shape) simp
  show thesis
  proof (cases ?r)
    case None
    with e that(1) show thesis by simp
  next
    case (Some res)
    then show thesis
    proof (cases res)
      case (Inl err)
      with Some e that(2) show thesis by simp
    next
      case (Inr v)
      with Some e that(3) show thesis by simp
    qed
  qed
qed

lemma run_height:
  "height (length stack) postfix = Some h \<Longrightarrow>
   never_pops_empty M isRadian stack postfix
   \<and> (\<forall>stack'. eval_loop M isRadian stack postfix = Some (Inr stack') \<longrightarrow> length stack' = h)"
proof (induction postfix arbitrary: stack)
  case Nil
  then show ?case by simp
next
  case (Cons token postfix)
  show ?case
  proof (cases "isNaN_item token")
    case False
    with Cons.prems
    have "height (length (parseFloat_item token # stack)) postfix = Some h"
      by simp
    from Cons.IH [OF this] False show ?thesis
      by (simp add: eval_token_def)
  next
    case True
    with Cons.prems have a: "arity token \<le> length stack"
      and h: "height (Suc (length stack - arity token)) postfix = Some h"
      by (simp_all split: if_splits del: arity.simps)
    from True show ?thesis
    proof (cases rule: eval_token_cases [of token M isRadian stack])
      case 1
      with True a show ?thesis by (simp del: arity.simps)
    next
      case (2 err)
      with True a show ?thesis by (simp del: arity.simps)
    next
      case (3 v)
      let ?stack = "v # drop (arity token) stack"
      from h have "height (length ?stack) postfix = Some h"
        by simp
      then have ih: "never_pops_empty M isRadian ?stack postfix
        \<and> (\<forall>stack'. eval_loop M isRadian ?stack postfix = Some (Inr stack')
              \<longrightarrow> length stack' = h)"
        by (rule Cons.IH)
      have np: "never_pops_empty M isRadian stack (token # postfix)
          = never_pops_empty M isRadian ?stack postfix"
        using True a 3 by (simp del: arity.simps)
      have el: "eval_loop M isRadian stack (token # postfix)
          = eval_loop M isRadian ?stack postfix"
        using 3 by simp
      show ?thesis
        unfolding np el by (rule ih)
    qed
  qed
qed

lemma factorial_error: "factorial a \<noteq> Some (Inl InvalidOperator)"
  by (auto simp: factorial_def)

lemma known_apply:
  assumes "known token" and "isNaN_item token"
  shows "applyOperator M isRadian token a b \<noteq> Some (Inl InvalidOperator)"
    and "token \<noteq> Str ''fact'' \<Longrightarrow> \<exists>v. applyOperator M isRadian token a b = Some (Inr v)"
proof -
  from assms obtain op where op: "token = Str op"
    and c: "is_operator op \<or> op \<in> set function_names"
    by (cases token) auto
  from c have "op = ''+'' \<or> op = ''-'' \<or> op = ''*'' \<or> op = ''/'' \<or> op = ''^''
    \<or> op = ''sin'' \<or> op = ''cos'' \<or> op = ''tan'' \<or> op = ''asin'' \<or> op = ''acos''
    \<or> op = ''atan'' \<or> op = ''log'' \<or> op = ''ln'' \<or> op = ''sqrt'' \<or> op = ''fact''"
    using precedence_Some [of op] by (auto simp: is_operator_def function_names_def)
  then show "applyOperator M isRadian token a b \<noteq> Some (Inl InvalidOperator)"
    unfolding op by (elim disjE) (simp_all add: factorial_error)
  assume "token \<noteq> Str ''fact''"
  with op have "op \<noteq> ''fact''" by simp
  with \<open>op = ''+'' \<or> _\<close> show "\<exists>v. applyOperator M isRadian token a b = Some (Inr v)"
    unfolding op by (elim disjE) simp_all
qed

lemma known_run:
  "\<forall>t \<in> set postfix. known t \<Longrightarrow>
   eval_loop M isRadian stack postfix \<noteq> Some (Inl InvalidOperator)
   \<and> (Str ''fact'' \<notin> set postfix \<longrightarrow> (\<exists>stack'. eval_loop M isRadian stack postfix = Some (Inr stack')))"
proof (induction postfix arbitrary: stack)
  case Nil
  then show ?case by simp
next
  case (Cons token postfix)
  from Cons.prems have k: "known token" and ks: "\<forall>t \<in> set postfix. known t" by simp_all
  show ?case
  proof (cases "isNaN_item token")
    case False
    with Cons.IH [OF ks, of "parseFloat_item token # stack"] show ?thesis
      by (simp add: eval_token_def)
  next
    case True
    let ?r = "applyOperator M isRadian token
      (fst (pop (if is_function token then stack else tl stack))) (fst (pop stack))"
    from True have e: "eval_token M isRadian stack token
      = push_result ?r (drop (arity token) stack)"
      by (simp only: eval_token_def apply_token_shape) simp
    show ?thesis
    proof (cases ?r)
      case None
      from known_apply(2) [OF k True, of M isRadian] None
      have "token = Str ''fact''" by (metis option.distinct(1))
      with None e show ?thesis by simp
    next
      case (Some res)
      show ?thesis
      proof (cases res)
        case (Inl err)
        from known_apply(1) [OF k True, of M isRadian] Some Inl
        have "err \<noteq> InvalidOperator" by auto
        moreover from known_apply(2) [OF k True, of M isRadian] Some Inl
        have "token = Str ''fact''" by (metis option.inject sum.distinct(1))
        ultimately show ?thesis using Some Inl e by simp
      next
        case (Inr v)
        with Some e Cons.IH [OF ks, of "v # drop (arity token) stack"] show ?thesis
          by (simp del: arity.simps)
      qed
    qed
  qed
qed

lemma shunt_subset:
  assumes "shunt (out, ops) t = (out', ops')"
  shows "set out' \<union> Str ` set ops' \<subseteq> set out \<union> Str ` set ops \<union> {resolve t, Str t}"
proof -
  consider (operand) "is_operand t"
    | (name) "\<not> is_operand t" "t \<in> set function_names \<or> t = ''(''"
    | (close) "\<not> is_operand t" "\<not> (t \<in> set function_names \<or> t = ''('')" "t = '')''"
    | (operator) "\<not> is_operand t" "\<not> (t \<in> set function_names \<or> t = ''('')" "t \<noteq> '')''"
    by blast
  then show ?thesis
  proof cases
    case operand
    with assms show ?thesis by (auto simp: shunt_operand simp del: shunt.simps)
  next
    case name
    have "shunt (out, ops) t = (out, t # ops)"
      using name(2) shunt_function [of t] shunt_open by blast
    with assms have "out' = out" "ops' = t # ops"
      by simp_all
    then show ?thesis by auto
  next
    case close
    with assms have "close_paren out ops = (out', ops')"
      by (simp add: is_operand_def)
    from set_close_paren [OF this] show ?thesis by auto
  next
    case operator
    with assms have "push_operator out ops t = (out', ops')"
      by (simp add: is_operand_def)
    from set_push_operator [OF this] show ?thesis by auto
  qed
qed

lemma foldl_shunt_subset:
  "foldl shunt (out, ops) ts = (out', ops') \<Longrightarrow>
   set out' \<union> Str ` set ops' \<subseteq> set out \<union> Str ` set ops \<union> resolve ` set ts \<union> Str ` set ts"
proof (induction ts arbitrary: out ops)
  case Nil
  then show ?case by auto
next
  case (Cons t ts)
  obtain out1 ops1 where s: "shunt (out, ops) t = (out1, ops1)"
    by (cases "shunt (out, ops) t")
  with Cons.prems have "foldl shunt (out1, ops1) ts = (out', ops')"
    by (simp del: shunt.simps)
  from Cons.IH [OF this] shunt_subset [OF s] show ?case
    by (simp only: list.set image_insert) blast
qed

lemma postfix_without_fact:
  assumes "''fact'' \<notin> set ts"
  shows "Str ''fact'' \<notin> set (to_postfix ts)"
proof -
  obtain out ops where f: "foldl shunt ([], []) ts = (out, ops)"
    by (cases "foldl shunt ([], []) ts")
  have "\<And>t. resolve t = Str ''fact'' \<Longrightarrow> t = ''fact''"
    by (auto simp: resolve_def split: if_splits)
  with foldl_shunt_subset [OF f] assms show ?thesis
    by (auto simp: to_postfix_def f)
qed

text \<open>
  C4 does not hold as it is stated: \<^verbatim>\<open>"fact(2.5)"\<close> and \<^verbatim>\<open>"i"\<close> are well formed, and their
  evaluations are aborted by an error.
\<close>

theorem well_formed_counterexample:
  "well_formed (tokenize ''fact(2.5)'')
   \<and> parseAndEvaluate sample_math True ''fact(2.5)'' = Some (Inl InvalidFactorial)
   \<and> well_formed (tokenize ''i'')
   \<and> parseAndEvaluate sample_math True ''i'' = Some (Inl InvalidOperator)"
  by (simp add: well_formed_def is_operand_def is_operator_def all_eval factorial_def)

text \<open>
  C4, amended. For every well-formed token sequence without the token \<open>i\<close>, the
  evaluation of its postfix form never pops an empty stack, and unless a \<open>fact\<close> in
  it raises \<open>Invalid factorial\<close> or does not return, it ends with exactly one value
  on the stack, which is the result; without \<open>fact\<close> it always ends so.
\<close>

theorem well_formed_evaluation:
  assumes "well_formed tokens" and "''i'' \<notin> set tokens"
  shows "never_pops_empty M isRadian [] (to_postfix tokens)
    \<and> (eval_loop M isRadian [] (to_postfix tokens) = None
       \<or> eval_loop M isRadian [] (to_postfix tokens) = Some (Inl InvalidFactorial)
       \<or> (\<exists>v. eval_loop M isRadian [] (to_postfix tokens) = Some (Inr [v])
            \<and> evaluatePostfix M isRadian (to_postfix tokens) = Some (Inr (Number v))))
    \<and> (''fact'' \<notin> set tokens \<longrightarrow>
         (\<exists>v. eval_loop M isRadian [] (to_postfix tokens) = Some (Inr [v])
            \<and> evaluatePostfix M isRadian (to_postfix tokens) = Some (Inr (Number v))))"
proof -
  let ?run = "eval_loop M isRadian [] (to_postfix tokens)"
  from postfix_height [OF assms] have h: "height (length ([] :: double list)) (to_postfix tokens) = Some 1"
    and k: "\<forall>t \<in> set (to_postfix tokens). known t" by simp_all
  from run_height [OF h, of M isRadian]
  have never: "never_pops_empty M isRadian [] (to_postfix tokens)"
    and len: "\<And>stack'. ?run = Some (Inr stack') \<Longrightarrow> length stack' = 1" by simp_all
  have one: "\<exists>v. ?run = Some (Inr [v])
      \<and> evaluatePostfix M isRadian (to_postfix tokens) = Some (Inr (Number v))"
    if "?run = Some (Inr stack')" for stack'
  proof -
    from len [OF that] obtain v where "stack' = [v]"
      by (cases stack') auto
    with that show ?thesis by (simp add: evaluatePostfix_def)
  qed
  from known_run [OF k, of M isRadian "[]"]
  have no_op: "?run \<noteq> Some (Inl InvalidOperator)"
    and total: "Str ''fact'' \<notin> set (to_postfix tokens) \<Longrightarrow> \<exists>stack'. ?run = Some (Inr stack')"
    by simp_all
  have cases: "?run = None \<or> ?run = Some (Inl InvalidFactorial)
      \<or> (\<exists>v. ?run = Some (Inr [v])
            \<and> evaluatePostfix M isRadian (to_postfix tokens) = Some (Inr (Number v)))"
  proof (cases ?run)
    case None
    then show ?thesis by simp
  next
    case (Some res)
    show ?thesis
    proof (cases res)
      case (Inl err)
      with Some no_op have "err = InvalidFactorial" by (cases err) auto
      with Some Inl show ?thesis by simp
    next
      case (Inr stack')
      with Some one [of stack'] show ?thesis by simp
    qed
  qed
  have "\<exists>v. ?run = Some (Inr [v])
      \<and> evaluatePostfix M isRadian (to_postfix tokens) = Some (Inr (Number v))"
    if "''fact'' \<notin> set tokens"
  proof -
    from total [OF postfix_without_fact [OF that]] obtain stack' where "?run = Some (Inr stack')"
      by blast
    then show ?thesis by (rule one)
  qed
  with never cases show ?thesis by blast
qed

theorem well_formed_evaluation_witness:
  "never_pops_empty sample_math True [] (to_postfix (tokenize ''(1+2)*3''))
   \<and> eval_loop sample_math True [] (to_postfix (tokenize ''(1+2)*3'')) = Some (Inr [D 9])
   \<and> evaluatePostfix sample_math True (to_postfix (tokenize ''(1+2)*3''))
       = Some (Inr (Number (D 9)))"
proof -
  have t: "tokenize ''(1+2)*3'' = [''('', ''1'', ''+'', ''2'', '')'', ''*'', ''3'']"
    by (simp add: tok_eval)
  have 1: "well_formed (tokenize ''(1+2)*3'')"
    unfolding t by (simp add: well_formed_def is_operand_def is_operator_def shunt_eval tok_eval)
  have 2: "''i'' \<notin> set (tokenize ''(1+2)*3'')"
    unfolding t by simp
  have 3: "eval_loop sample_math True [] (to_postfix (tokenize ''(1+2)*3'')) = Some (Inr [D 9])"
    unfolding t by (simp add: all_eval)
  from well_formed_evaluation [OF 1 2, of sample_math True] 3 show ?thesis
    by auto
qed

section \<open>An operator without its operands\<close>

lemma short_stack:
  assumes "isNaN_item token" and "length stack < arity token"
  shows "eval_token M isRadian stack token
         = push_result (applyOperator M isRadian token Undefined (fst (pop stack))) []"
proof -
  have a: "fst (pop (if is_function token then stack else tl stack)) = Undefined"
  proof (cases "is_function token")
    case True
    with assms(2) have "stack = []" by simp
    with True show ?thesis by simp
  next
    case False
    with assms(2) have "length stack < 2" by simp
    then have "tl stack = []"
      by (cases stack) simp_all
    with False show ?thesis by simp
  qed
  from assms(2) have d: "drop (arity token) stack = []"
    by (simp del: arity.simps)
  from assms(1) have "eval_token M isRadian stack token = apply_token M isRadian token stack"
    by (simp add: eval_token_def)
  also have "\<dots> = push_result (applyOperator M isRadian token Undefined (fst (pop stack))) []"
    by (simp only: apply_token_shape a d)
  finally show ?thesis .
qed

lemma angle_NaN: "angle isRadian NaN = NaN" "invAngle isRadian NaN = NaN"
  by (simp_all add: angle_def invAngle_def d_mul_NaN d_div_NaN)

text \<open>
  C1 does not hold: no evaluation raises a stack underflow. The input \<^verbatim>\<open>"+"\<close> alone
  returns \<open>NaN\<close>.
\<close>

theorem stack_underflow_counterexample:
  "evaluatePostfix sample_math True [Str ''+''] = Some (Inr (Number NaN))
   \<and> parseAndEvaluate sample_math True ''+'' = Some (Inr (Number NaN))"
  by (simp add: all_eval)

text \<open>
  C1, amended. When an operator or a function is applied while the stack holds fewer
  operands than its arity, nothing is raised for that: \<^verbatim>\<open>pop\<close> on the empty stack
  returns \<^verbatim>\<open>undefined\<close>, the operator is applied to it, its result is pushed and the
  evaluation goes on. For \<open>+\<close>, \<open>-\<close>, \<open>*\<close> and \<open>/\<close> the result is \<open>NaN\<close>, so that
  \<^verbatim>\<open>"+"\<close> alone returns \<open>NaN\<close>; \<^verbatim>\<open>Math.pow\<close> and each \<^verbatim>\<open>Math\<close> function are applied to
  \<open>NaN\<close>; only \<open>fact\<close> raises, with its own error \<open>Invalid factorial\<close>.

  The first conjunct is about every operator and every function: the missing operand
  is \<^verbatim>\<open>undefined\<close>, the stack is left with the result alone, \<open>Invalid operator\<close> is not
  raised, and for every token but \<open>fact\<close> there is a result and the evaluation goes
  on with it. The others give the result token by token.
\<close>

theorem missing_operand_is_undefined:
  "((is_operator op \<or> op \<in> set function_names) \<and> length stack < arity (Str op)
    \<longrightarrow> eval_token M isRadian stack (Str op)
        = push_result (applyOperator M isRadian (Str op) Undefined (fst (pop stack))) []
      \<and> eval_token M isRadian stack (Str op) \<noteq> Some (Inl InvalidOperator)
      \<and> (op \<noteq> ''fact'' \<longrightarrow>
           (\<exists>v. eval_token M isRadian stack (Str op) = Some (Inr [v])
              \<and> eval_loop M isRadian stack (Str op # postfix)
                = eval_loop M isRadian [v] postfix)))
   \<and> (op \<in> {''+'', ''-'', ''*'', ''/''} \<and> length stack < 2
    \<longrightarrow> eval_token M isRadian stack (Str op) = Some (Inr [NaN])
      \<and> eval_loop M isRadian stack (Str op # postfix) = eval_loop M isRadian [NaN] postfix)
   \<and> (length stack < 2
    \<longrightarrow> eval_token M isRadian stack (Str ''^'')
        = Some (Inr [Math_pow M NaN (to_number (fst (pop stack)))]))
   \<and> eval_token M isRadian [] (Str ''sin'') = Some (Inr [Math_sin M NaN])
   \<and> eval_token M isRadian [] (Str ''cos'') = Some (Inr [Math_cos M NaN])
   \<and> eval_token M isRadian [] (Str ''tan'') = Some (Inr [Math_tan M NaN])
   \<and> eval_token M isRadian [] (Str ''asin'') = Some (Inr [invAngle isRadian (Math_asin M NaN)])
   \<and> eval_token M isRadian [] (Str ''acos'') = Some (Inr [invAngle isRadian (Math_acos M NaN)])
   \<and> eval_token M isRadian [] (Str ''atan'') = Some (Inr [invAngle isRadian (Math_atan M NaN)])
   \<and> eval_token M isRadian [] (Str ''log'') = Some (Inr [Math_log10 M NaN])
   \<and> eval_token M isRadian [] (Str ''ln'') = Some (Inr [Math_log M NaN])
   \<and> eval_token M isRadian [] (Str ''sqrt'') = Some (Inr [Math_sqrt M NaN])
   \<and> eval_token M isRadian [] (Str ''fact'') = Some (Inl InvalidFactorial)
   \<and> evaluatePostfix M isRadian [Str ''+''] = Some (Inr (Number NaN))
   \<and> parseAndEvaluate M isRadian ''+'' = Some (Inr (Number NaN))"
proof -
  have general: "eval_token M isRadian stack (Str op)
        = push_result (applyOperator M isRadian (Str op) Undefined (fst (pop stack))) []
      \<and> eval_token M isRadian stack (Str op) \<noteq> Some (Inl InvalidOperator)
      \<and> (op \<noteq> ''fact'' \<longrightarrow>
           (\<exists>v. eval_token M isRadian stack (Str op) = Some (Inr [v])
              \<and> eval_loop M isRadian stack (Str op # postfix)
                = eval_loop M isRadian [v] postfix))"
    if c: "is_operator op \<or> op \<in> set function_names"
      and l: "length stack < arity (Str op)" for op stack
  proof -
    let ?r = "applyOperator M isRadian (Str op) Undefined (fst (pop stack))"
    from c item_class [of op] have n: "isNaN_item (Str op)" and k: "known (Str op)"
      by blast+
    from n l have e: "eval_token M isRadian stack (Str op) = push_result ?r []"
      by (rule short_stack)
    from k n have "?r \<noteq> Some (Inl InvalidOperator)"
      by (rule known_apply(1))
    have i: "push_result ?r [] \<noteq> Some (Inl InvalidOperator)"
    proof (cases ?r)
      case None
      then show ?thesis by simp
    next
      case (Some res)
      with \<open>?r \<noteq> Some (Inl InvalidOperator)\<close> show ?thesis
        by (cases res) simp_all
    qed
    have "\<exists>v. eval_token M isRadian stack (Str op) = Some (Inr [v])
              \<and> eval_loop M isRadian stack (Str op # postfix)
                = eval_loop M isRadian [v] postfix" if "op \<noteq> ''fact''"
    proof -
      from that have "Str op \<noteq> Str ''fact''" by simp
      with k n obtain v where "?r = Some (Inr v)"
        using known_apply(2) [of "Str op" M isRadian Undefined "fst (pop stack)"] by blast
      with e have "eval_token M isRadian stack (Str op) = Some (Inr [v])"
        by simp
      then show ?thesis by simp
    qed
    with e i show ?thesis by simp
  qed
  have arithmetic: "eval_token M isRadian stack (Str op) = Some (Inr [NaN])
      \<and> eval_loop M isRadian stack (Str op # postfix) = eval_loop M isRadian [NaN] postfix"
    if a: "op \<in> {''+'', ''-'', ''*'', ''/''} \<and> length stack < 2"
  proof -
    from a have "op = ''+'' \<or> op = ''-'' \<or> op = ''*'' \<or> op = ''/''"
      by simp
    then have "is_operator op"
      by (elim disjE; simp add: is_operator_def precedence_def)
    with a general [of op stack]
    have e: "eval_token M isRadian stack (Str op)
        = push_result (applyOperator M isRadian (Str op) Undefined (fst (pop stack))) []"
      using item_class(1) [of op] by simp
    from a have "applyOperator M isRadian (Str op) Undefined (fst (pop stack)) = Some (Inr NaN)"
      by (intro arithmetic_undefined) simp
    with e have 1: "eval_token M isRadian stack (Str op) = Some (Inr [NaN])"
      by simp
    then show ?thesis by simp
  qed
  have power: "eval_token M isRadian stack (Str ''^'')
        = Some (Inr [Math_pow M NaN (to_number (fst (pop stack)))])" if "length stack < 2"
  proof -
    have "is_operator ''^''"
      by (simp add: is_operator_def precedence_def)
    with that general [of "''^''" stack] item_class(1) [of "''^''"] show ?thesis
      by simp
  qed
  have f: "x \<in> set function_names \<Longrightarrow> eval_token M isRadian [] (Str x)
      = push_result (applyOperator M isRadian (Str x) Undefined Undefined) []" for x
    using general [of x "[]"] item_class(2) [of x] by simp
  have s: "eval_token M isRadian [] (Str ''sin'') = Some (Inr [Math_sin M NaN])"
    "eval_token M isRadian [] (Str ''cos'') = Some (Inr [Math_cos M NaN])"
    "eval_token M isRadian [] (Str ''tan'') = Some (Inr [Math_tan M NaN])"
    "eval_token M isRadian [] (Str ''asin'') = Some (Inr [invAngle isRadian (Math_asin M NaN)])"
    "eval_token M isRadian [] (Str ''acos'') = Some (Inr [invAngle isRadian (Math_acos M NaN)])"
    "eval_token M isRadian [] (Str ''atan'') = Some (Inr [invAngle isRadian (Math_atan M NaN)])"
    "eval_token M isRadian [] (Str ''log'') = Some (Inr [Math_log10 M NaN])"
    "eval_token M isRadian [] (Str ''ln'') = Some (Inr [Math_log M NaN])"
    "eval_token M isRadian [] (Str ''sqrt'') = Some (Inr [Math_sqrt M NaN])"
    by (simp_all add: f function_names_def angle_NaN)
  have t: "eval_token M isRadian [] (Str ''fact'') = Some (Inl InvalidFactorial)"
    by (simp add: f function_names_def factorial_def)
  have p: "evaluatePostfix M isRadian [Str ''+''] = Some (Inr (Number NaN))"
    "parseAndEvaluate M isRadian ''+'' = Some (Inr (Number NaN))"
    by (simp_all add: all_eval)
  from general [of op stack]
  have g: "(is_operator op \<or> op \<in> set function_names) \<and> length stack < arity (Str op)
    \<longrightarrow> eval_token M isRadian stack (Str op)
        = push_result (applyOperator M isRadian (Str op) Undefined (fst (pop stack))) []
      \<and> eval_token M isRadian stack (Str op) \<noteq> Some (Inl InvalidOperator)
      \<and> (op \<noteq> ''fact'' \<longrightarrow>
           (\<exists>v. eval_token M isRadian stack (Str op) = Some (Inr [v])
              \<and> eval_loop M isRadian stack (Str op # postfix)
                = eval_loop M isRadian [v] postfix))"
    by blast
  from arithmetic
  have a: "op \<in> {''+'', ''-'', ''*'', ''/''} \<and> length stack < 2
    \<longrightarrow> eval_token M isRadian stack (Str op) = Some (Inr [NaN])
      \<and> eval_loop M isRadian stack (Str op # postfix) = eval_loop M isRadian [NaN] postfix"
    by blast
  from power
  have w: "length stack < 2
    \<longrightarrow> eval_token M isRadian stack (Str ''^'')
        = Some (Inr [Math_pow M NaN (to_number (fst (pop stack)))])"
    by blast
  show ?thesis
    by (intro conjI g a w s t p)
qed

theorem missing_operand_is_undefined_witness:
  "eval_token sample_math True [D 7] (Str ''-'') = Some (Inr [NaN])
   \<and> eval_token sample_math True [D 7] (Str ''-'')
     = push_result (applyOperator sample_math True (Str ''-'') Undefined (Number (D 7))) []
   \<and> eval_loop sample_math True [D 7] [Str ''-'', Str ''1''] = Some (Inr [D 1, NaN])
   \<and> eval_token sample_math True [D 7] (Str ''^'') = Some (Inr [NaN])"
proof -
  have h: "(is_operator ''-'' \<or> ''-'' \<in> set function_names) \<and> length [D 7] < arity (Str ''-'')"
    "''-'' \<in> {''+'', ''-'', ''*'', ''/''} \<and> length [D 7] < 2"
    "length [D 7] < 2"
    by (simp_all add: is_operator_def precedence_def function_names_def)
  have l: "eval_loop sample_math True [NaN] [Str ''1''] = Some (Inr [D 1, NaN])"
    by (simp add: all_eval)
  have p: "Math_pow sample_math NaN (to_number (fst (pop [D 7]))) = NaN"
    by (simp add: sample_math_def)
  from missing_operand_is_undefined [of "''-''" "[D 7]" sample_math True "[Str ''1'']"] h
  have "eval_token sample_math True [D 7] (Str ''-'') = Some (Inr [NaN])"
    "eval_token sample_math True [D 7] (Str ''-'')
     = push_result (applyOperator sample_math True (Str ''-'') Undefined (fst (pop [D 7]))) []"
    "eval_loop sample_math True [D 7] [Str ''-'', Str ''1'']
     = eval_loop sample_math True [NaN] [Str ''1'']"
    "eval_token sample_math True [D 7] (Str ''^'')
     = Some (Inr [Math_pow sample_math NaN (to_number (fst (pop [D 7])))])"
    by blast+
  with l p show ?thesis
    by (simp del: applyOperator.simps)
qed

end
